theory Spec2Isabelle
  imports Main "HOL-Library.Word"
begin

unbundle bit_operations_syntax

section \<open>Data model\<close>

text \<open>
  The transcoders of \<^verbatim>\<open>jni/magiskboot/compress.c\<close> read an input buffer
  \<^verbatim>\<open>(buf, size)\<close> and write to a file descriptor. The buffer is a list of bytes
  and \<^verbatim>\<open>size\<close> is its length; the bytes a call writes to the descriptor are
  collected in a list that the call returns next to its return value. Cursors of type
  \<^verbatim>\<open>size_t\<close> are natural numbers (a buffer never comes close to the width of
  \<^verbatim>\<open>size_t\<close>); the \<^verbatim>\<open>unsigned\<close> and \<^verbatim>\<open>int\<close> variables of
  \<^verbatim>\<open>lz4_legacy\<close> are 32-bit words.
\<close>

type_synonym byte = "8 word"

text \<open>
  The comment above \<^verbatim>\<open>gzip\<close>, \<^verbatim>\<open>lz4\<close>, \<^verbatim>\<open>bzip2\<close> and \<^verbatim>\<open>lz4_legacy\<close>:
  \<^verbatim>\<open>Mode: 0 = decode; 1 = encode\<close>.
\<close>

datatype mode = Decode | Encode

text \<open>
  Modelled from the spec: \<^verbatim>\<open>LOGE\<close> (logging.h, not under src/) is the
  exit-on-error logging macro, so every \<^verbatim>\<open>LOGE\<close> of the source ends the call with
  an error. The kinds are those of the spec. The last two are not a \<^verbatim>\<open>LOGE\<close>:
  \<open>BufferOverRead\<close> marks a read of the source outside \<^verbatim>\<open>buf[0..size)\<close> and
  \<open>BufferOverflow\<close> a write beyond a destination array, both of which C leaves
  undefined.
\<close>

datatype error =
    CodecInitError
  | CodecStreamError
  | ExtensionMismatch
  | UnknownMethod
  | UnsupportedFormat
  | BufferOverRead
  | BufferOverflow

text \<open>
  Modelled from the spec: \<^verbatim>\<open>xwrite\<close> (utils.h, not under src/) is the chunked sink
  \<^verbatim>\<open>write_all(stream, bytes) -> bytes_written\<close>: it appends the bytes to the stream
  and returns how many it wrote. The stream here accepts every write.
\<close>

definition xwrite :: "byte list \<Rightarrow> byte list \<Rightarrow> byte list \<times> nat" where
  "xwrite fd bs = (fd @ bs, length bs)"

text \<open>
  A 32-bit value stored to and loaded from memory, as \<^verbatim>\<open>xwrite(fd, &have, sizeof(have))\<close>
  and \<^verbatim>\<open>*(unsigned *)(buf + pos)\<close> do on the little-endian targets the program is
  built for.
\<close>

definition le32 :: "32 word \<Rightarrow> byte list" where
  "le32 w = (let n = unat w in
     [of_nat (n mod 256), of_nat (n div 256 mod 256),
      of_nat (n div 65536 mod 256), of_nat (n div 16777216 mod 256)])"

definition rd32 :: "byte list \<Rightarrow> 32 word" where
  "rd32 bs = of_nat (unat (bs ! 0) + 256 * unat (bs ! 1) + 65536 * unat (bs ! 2)
                      + 16777216 * unat (bs ! 3))"

section \<open>The LZ4 legacy transcoder\<close>

text \<open>
  The LZ4 block library (lz4.h, lz4hc.h) is outside the repository; the transcoder takes it
  as a parameter. \<open>LZ4_compress_HC src cap level\<close> is the block written to the
  destination (the empty list stands for the return value 0); \<open>LZ4_decompress_safe src cap\<close>
  is the decoded block, or \<open>None\<close> for a negative return value; \<open>LZ4_COMPRESSBOUND\<close>
  is the macro of lz4.h.
\<close>

record lz4lib =
  LZ4_compress_HC :: "byte list \<Rightarrow> nat \<Rightarrow> nat \<Rightarrow> byte list"
  LZ4_decompress_safe :: "byte list \<Rightarrow> nat \<Rightarrow> byte list option"
  LZ4_COMPRESSBOUND :: "nat \<Rightarrow> nat"

definition LZ4_LEGACY_BLOCKSIZE :: nat where
  "LZ4_LEGACY_BLOCKSIZE = 0x800000"

definition lz4_legacy_magic :: "byte list" where
  "lz4_legacy_magic = [0x02, 0x21, 0x4c, 0x18]"

text \<open>
  The \<^verbatim>\<open>do { ... } while (pos < size)\<close> loop of \<^verbatim>\<open>lz4_legacy\<close> (lines 347 to 375).
  The state is the cursor \<open>pos\<close>, the 32-bit counter \<open>total\<close> and the bytes written so
  far. \<^verbatim>\<open>goto done\<close> leaves the loop with the state it has. In decode mode the source
  loads four bytes at \<open>pos\<close> and hands \<open>block_size\<close> bytes at \<open>pos + 4\<close> to the library
  without comparing either range with \<open>size\<close>; a range that leaves the buffer is
  \<open>BufferOverRead\<close>.
\<close>

function lz4_legacy_loop ::
  "lz4lib \<Rightarrow> mode \<Rightarrow> byte list \<Rightarrow> nat \<Rightarrow> 32 word \<Rightarrow> byte list
    \<Rightarrow> error + (nat \<times> 32 word \<times> byte list)" where
  "lz4_legacy_loop L m buf pos tot fd =
     (let size = length buf in
      case m of
        Decode \<Rightarrow>
          if size < pos + 4 then Inl BufferOverRead
          else
            let block_size = rd32 (take 4 (drop pos buf));
                pos1 = pos + 4
            in if LZ4_COMPRESSBOUND L LZ4_LEGACY_BLOCKSIZE < unat block_size
               then Inr (pos1, tot, fd)
               else if size < pos1 + unat block_size then Inl BufferOverRead
               else
                 (case LZ4_decompress_safe L (take (unat block_size) (drop pos1 buf))
                         LZ4_LEGACY_BLOCKSIZE of
                    None \<Rightarrow> Inl CodecStreamError
                  | Some out \<Rightarrow>
                      let pos2 = pos1 + unat block_size;
                          (fd1, n1) = xwrite fd out;
                          tot1 = tot + of_nat n1
                      in if pos2 < size then lz4_legacy_loop L m buf pos2 tot1 fd1
                         else Inr (pos2, tot1, fd1))
      | Encode \<Rightarrow>
          let insize = (if size \<le> pos + LZ4_LEGACY_BLOCKSIZE then size - pos
                        else LZ4_LEGACY_BLOCKSIZE);
              out = LZ4_compress_HC L (take insize (drop pos buf))
                      (LZ4_COMPRESSBOUND L LZ4_LEGACY_BLOCKSIZE) 9;
              have = length out
          in if have = 0 then Inl CodecStreamError
             else
               let pos1 = pos + insize;
                   (fd1, n1) = xwrite fd (le32 (of_nat have));
                   tot1 = tot + of_nat n1;
                   (fd2, n2) = xwrite fd1 out;
                   tot2 = tot1 + of_nat n2
               in if pos1 < size then lz4_legacy_loop L m buf pos1 tot2 fd2
                  else Inr (pos1, tot2, fd2))"
  by pat_completeness auto
termination
  by (relation "measure (\<lambda>(L, m, buf, pos, tot, fd). length buf - pos)")
     (auto simp: LZ4_LEGACY_BLOCKSIZE_def split: if_splits)

declare lz4_legacy_loop.simps [simp del]

text \<open>
  \<^verbatim>\<open>lz4_legacy\<close> (lines 328 to 385): decoding skips the magic (\<open>pos\<close> starts at 4);
  encoding writes the magic first and, after the loop, the input size as an
  \<^verbatim>\<open>unsigned\<close>; that last \<^verbatim>\<open>xwrite\<close> is not added to \<open>total\<close>. The result is
  the returned \<open>total\<close> and the bytes written.
\<close>

definition lz4_legacy :: "lz4lib \<Rightarrow> mode \<Rightarrow> byte list \<Rightarrow> error + (nat \<times> byte list)" where
  "lz4_legacy L m buf =
     (case m of
        Decode \<Rightarrow>
          (case lz4_legacy_loop L m buf 4 0 [] of
             Inl e \<Rightarrow> Inl e
           | Inr (pos, tot, fd) \<Rightarrow> Inr (unat tot, fd))
      | Encode \<Rightarrow>
          (let (fd0, n0) = xwrite [] lz4_legacy_magic;
               tot0 = of_nat n0
           in case lz4_legacy_loop L m buf 0 tot0 fd0 of
                Inl e \<Rightarrow> Inl e
              | Inr (pos, tot, fd) \<Rightarrow>
                  let uncomp = (of_nat (length buf) :: 32 word);
                      (fd1, n1) = xwrite fd (le32 uncomp)
                  in Inr (unat tot, fd1)))"

section \<open>The gzip transcoder\<close>

text \<open>
  zlib is outside the repository; the transcoder takes it as a parameter. An init function
  gives its return value and the stream state. \<open>inflate strm next_in avail_out flush\<close>
  and \<open>deflate\<close> are one call on the stream with the \<open>avail_in\<close> bytes at
  \<open>next_in\<close> and room for \<open>avail_out\<close> bytes: the return value, the new state, the
  number of input bytes consumed and the bytes produced. The constants are those of zlib.h.
\<close>

record 'z zlib =
  inflateInit2 :: "int \<Rightarrow> int \<times> 'z"
  deflateInit2 :: "int \<Rightarrow> int \<Rightarrow> int \<Rightarrow> int \<Rightarrow> int \<Rightarrow> int \<times> 'z"
  inflate :: "'z \<Rightarrow> byte list \<Rightarrow> nat \<Rightarrow> int \<Rightarrow> int \<times> 'z \<times> nat \<times> byte list"
  deflate :: "'z \<Rightarrow> byte list \<Rightarrow> nat \<Rightarrow> int \<Rightarrow> int \<times> 'z \<times> nat \<times> byte list"

definition Z_OK :: int where "Z_OK = 0"
definition Z_STREAM_ERROR :: int where "Z_STREAM_ERROR = - 2"
definition Z_NO_FLUSH :: int where "Z_NO_FLUSH = 0"
definition Z_FINISH :: int where "Z_FINISH = 4"
definition Z_DEFLATED :: int where "Z_DEFLATED = 8"
definition Z_DEFAULT_STRATEGY :: int where "Z_DEFAULT_STRATEGY = 0"

definition windowBits :: int where "windowBits = 15"
definition ZLIB_GZIP :: int where "ZLIB_GZIP = 16"
definition memLevel :: int where "memLevel = 8"
definition CHUNK :: nat where "CHUNK = 0x40000"

text \<open>
  Lines 47 to 55: the window of one outer iteration, \<open>(avail_in, flush)\<close>; the cursor
  advances by \<open>avail_in\<close> before the codec runs.
\<close>

definition gzip_window :: "nat \<Rightarrow> nat \<Rightarrow> nat \<times> int" where
  "gzip_window pos sz =
     (if sz \<le> pos + CHUNK then (sz - pos, Z_FINISH) else (CHUNK, Z_NO_FLUSH))"

text \<open>
  The inner loop (lines 57 to 74) calls the codec with an empty output buffer of \<open>CHUNK\<close>
  bytes, writes what it produced and repeats while the buffer came back full
  (\<^verbatim>\<open>strm.avail_out == 0\<close>). Nothing bounds the number of rounds, so the loop is a partial
  function: \<open>None\<close> is a loop that never ends.
\<close>

partial_function (option) gzip_inner ::
  "'z zlib \<Rightarrow> mode \<Rightarrow> int \<Rightarrow> 'z \<Rightarrow> byte list \<Rightarrow> nat \<Rightarrow> byte list
    \<Rightarrow> (error + ('z \<times> nat \<times> byte list)) option" where
  "gzip_inner L m flush strm next_in tot fd =
     (let (ret, strm1, used, produced) =
            (case m of
               Decode \<Rightarrow> inflate L strm next_in CHUNK flush
             | Encode \<Rightarrow> deflate L strm next_in CHUNK flush);
          out = take CHUNK produced
      in if ret = Z_STREAM_ERROR then Some (Inl CodecStreamError)
         else
           let have = length out;
               (fd1, n1) = xwrite fd out;
               tot1 = tot + n1
           in if have = CHUNK then gzip_inner L m flush strm1 (drop used next_in) tot1 fd1
              else Some (Inr (strm1, tot1, fd1)))"

text \<open>The outer loop (lines 46 to 76), from the cursor \<open>pos\<close>.\<close>

function gzip_loop ::
  "'z zlib \<Rightarrow> mode \<Rightarrow> byte list \<Rightarrow> nat \<Rightarrow> 'z \<Rightarrow> nat \<Rightarrow> byte list
    \<Rightarrow> (error + (nat \<times> nat \<times> byte list)) option" where
  "gzip_loop L m buf pos strm tot fd =
     (let size = length buf;
          (avail_in, flush) = gzip_window pos size;
          pos1 = pos + avail_in
      in case gzip_inner L m flush strm (take avail_in (drop pos buf)) tot fd of
           None \<Rightarrow> None
         | Some (Inl e) \<Rightarrow> Some (Inl e)
         | Some (Inr (strm1, tot1, fd1)) \<Rightarrow>
             if pos1 < size then gzip_loop L m buf pos1 strm1 tot1 fd1
             else Some (Inr (pos1, tot1, fd1)))"
  by pat_completeness auto
termination
  by (relation "measure (\<lambda>(L, m, buf, pos, strm, tot, fd). length buf - pos)")
     (auto simp: gzip_window_def CHUNK_def split: if_splits)

declare gzip_loop.simps [simp del]

text \<open>\<^verbatim>\<open>gzip\<close> (lines 25 to 87): the returned \<open>total\<close> and the bytes written.\<close>

definition gzip :: "'z zlib \<Rightarrow> mode \<Rightarrow> byte list \<Rightarrow> (error + (nat \<times> byte list)) option" where
  "gzip L m buf =
     (let (ret, strm) =
            (case m of
               Decode \<Rightarrow> inflateInit2 L (windowBits OR ZLIB_GZIP)
             | Encode \<Rightarrow> deflateInit2 L 9 Z_DEFLATED (windowBits OR ZLIB_GZIP) memLevel
                           Z_DEFAULT_STRATEGY)
      in if ret \<noteq> Z_OK then Some (Inl CodecInitError)
         else
           (case gzip_loop L m buf 0 strm 0 [] of
              None \<Rightarrow> None
            | Some (Inl e) \<Rightarrow> Some (Inl e)
            | Some (Inr (pos, tot, fd)) \<Rightarrow> Some (Inr (tot, fd))))"

section \<open>The xz and LZMA transcoder\<close>

text \<open>
  The comment above \<^verbatim>\<open>lzma\<close>: \<^verbatim>\<open>Mode: 0 = decode xz/lzma; 1 = encode xz; 2 = encode lzma\<close>.
\<close>

datatype lzma_mode = LzmaDecode | XzEncode | LzmaEncode

text \<open>
  liblzma is outside the repository. \<open>lzma_auto_decoder memlimit flags\<close>,
  \<open>lzma_stream_encoder preset check\<close> (one LZMA2 filter with the options of the preset) and
  \<open>lzma_alone_encoder preset\<close> give the return value and the stream; \<open>lzma_code\<close> is one
  call on the stream, as for zlib. \<^verbatim>\<open>BUFSIZ\<close> is the constant of the C library's stdio.h;
  the transcoder takes it as a parameter.
\<close>

record 'l lzmalib =
  lzma_auto_decoder :: "nat \<Rightarrow> nat \<Rightarrow> int \<times> 'l"
  lzma_stream_encoder :: "nat \<Rightarrow> nat \<Rightarrow> int \<times> 'l"
  lzma_alone_encoder :: "nat \<Rightarrow> int \<times> 'l"
  lzma_code :: "'l \<Rightarrow> byte list \<Rightarrow> nat \<Rightarrow> int \<Rightarrow> int \<times> 'l \<times> nat \<times> byte list"

definition LZMA_OK :: int where "LZMA_OK = 0"
definition LZMA_STREAM_END :: int where "LZMA_STREAM_END = 1"
definition LZMA_RUN :: int where "LZMA_RUN = 0"
definition LZMA_FINISH :: int where "LZMA_FINISH = 3"
definition LZMA_CHECK_CRC32 :: nat where "LZMA_CHECK_CRC32 = 1"
definition UINT64_MAX :: nat where "UINT64_MAX = 2 ^ 64 - 1"

text \<open>Lines 123 to 131: the window \<open>(avail_in, action)\<close> of one outer iteration.\<close>

definition lzma_window :: "nat \<Rightarrow> nat \<Rightarrow> nat \<Rightarrow> nat \<times> int" where
  "lzma_window BUFSIZ pos sz =
     (if sz \<le> pos + BUFSIZ then (sz - pos, LZMA_FINISH) else (BUFSIZ, LZMA_RUN))"

text \<open>
  The inner loop (lines 133 to 139) repeats while the output buffer came back full and the
  codec returned \<open>LZMA_OK\<close>; it hands the last return value to the check of line 141.
\<close>

partial_function (option) lzma_inner ::
  "'l lzmalib \<Rightarrow> nat \<Rightarrow> int \<Rightarrow> 'l \<Rightarrow> byte list \<Rightarrow> nat \<Rightarrow> byte list
    \<Rightarrow> (int \<times> 'l \<times> nat \<times> byte list) option" where
  "lzma_inner L BUFSIZ action strm next_in tot fd =
     (let (ret, strm1, used, produced) = lzma_code L strm next_in BUFSIZ action;
          out = take BUFSIZ produced;
          have = length out;
          (fd1, n1) = xwrite fd out;
          tot1 = tot + n1
      in if have = BUFSIZ \<and> ret = LZMA_OK
         then lzma_inner L BUFSIZ action strm1 (drop used next_in) tot1 fd1
         else Some (ret, strm1, tot1, fd1))"

text \<open>
  The outer loop (lines 122 to 144). With \<open>BUFSIZ = 0\<close> the cursor would never move, so
  this loop is a partial function as well.
\<close>

partial_function (option) lzma_loop ::
  "'l lzmalib \<Rightarrow> nat \<Rightarrow> byte list \<Rightarrow> nat \<Rightarrow> 'l \<Rightarrow> nat \<Rightarrow> byte list
    \<Rightarrow> (error + (nat \<times> nat \<times> byte list)) option" where
  "lzma_loop L BUFSIZ buf pos strm tot fd =
     (let size = length buf;
          (avail_in, action) = lzma_window BUFSIZ pos size;
          pos1 = pos + avail_in
      in case lzma_inner L BUFSIZ action strm (take avail_in (drop pos buf)) tot fd of
           None \<Rightarrow> None
         | Some (ret, strm1, tot1, fd1) \<Rightarrow>
             if ret \<noteq> LZMA_OK \<and> ret \<noteq> LZMA_STREAM_END then Some (Inl CodecStreamError)
             else if pos1 < size then lzma_loop L BUFSIZ buf pos1 strm1 tot1 fd1
             else Some (Inr (pos1, tot1, fd1)))"

text \<open>
  Lines 106 to 116: the stream for a mode. Decoding xz and legacy LZMA is one auto-detecting
  decoder; the two encoders differ. The preset of line 100 is 9.
\<close>

definition lzma_init :: "'l lzmalib \<Rightarrow> lzma_mode \<Rightarrow> int \<times> 'l" where
  "lzma_init L m =
     (case m of
        LzmaDecode \<Rightarrow> lzma_auto_decoder L UINT64_MAX 0
      | XzEncode \<Rightarrow> lzma_stream_encoder L 9 LZMA_CHECK_CRC32
      | LzmaEncode \<Rightarrow> lzma_alone_encoder L 9)"

text \<open>\<^verbatim>\<open>lzma\<close> (lines 91 to 148).\<close>

definition lzma ::
  "'l lzmalib \<Rightarrow> nat \<Rightarrow> lzma_mode \<Rightarrow> byte list \<Rightarrow> (error + (nat \<times> byte list)) option" where
  "lzma L BUFSIZ m buf =
     (let (ret, strm) = lzma_init L m
      in if ret \<noteq> LZMA_OK then Some (Inl CodecInitError)
         else
           (case lzma_loop L BUFSIZ buf 0 strm 0 [] of
              None \<Rightarrow> None
            | Some (Inl e) \<Rightarrow> Some (Inl e)
            | Some (Inr (pos, tot, fd)) \<Rightarrow> Some (Inr (tot, fd))))"

section \<open>The bzip2 transcoder\<close>

text \<open>
  libbz2 is outside the repository. \<open>BZ2_bzDecompressInit verbosity small\<close> and
  \<open>BZ2_bzCompressInit blockSize100k verbosity workFactor\<close> give the return value and the
  stream; \<open>BZ2_bzDecompress\<close> takes no action, \<open>BZ2_bzCompress\<close> takes one.
\<close>

record 'b bzlib =
  BZ2_bzDecompressInit :: "nat \<Rightarrow> nat \<Rightarrow> int \<times> 'b"
  BZ2_bzCompressInit :: "nat \<Rightarrow> nat \<Rightarrow> nat \<Rightarrow> int \<times> 'b"
  BZ2_bzDecompress :: "'b \<Rightarrow> byte list \<Rightarrow> nat \<Rightarrow> int \<times> 'b \<times> nat \<times> byte list"
  BZ2_bzCompress :: "'b \<Rightarrow> byte list \<Rightarrow> nat \<Rightarrow> int \<Rightarrow> int \<times> 'b \<times> nat \<times> byte list"

definition BZ_OK :: int where "BZ_OK = 0"
definition BZ_RUN :: int where "BZ_RUN = 0"
definition BZ_FINISH :: int where "BZ_FINISH = 2"

text \<open>Lines 287 to 295: the window \<open>(avail_in, action)\<close> of one outer iteration.\<close>

definition bzip2_window :: "nat \<Rightarrow> nat \<Rightarrow> nat \<times> int" where
  "bzip2_window pos sz =
     (if sz \<le> pos + CHUNK then (sz - pos, BZ_FINISH) else (CHUNK, BZ_RUN))"

text \<open>
  The inner loop (lines 297 to 312) stores the codec's return value in \<open>ret\<close> and never
  looks at it: the loop has no error exit.
\<close>

partial_function (option) bzip2_inner ::
  "'b bzlib \<Rightarrow> mode \<Rightarrow> int \<Rightarrow> 'b \<Rightarrow> byte list \<Rightarrow> nat \<Rightarrow> byte list
    \<Rightarrow> ('b \<times> nat \<times> byte list) option" where
  "bzip2_inner L m action strm next_in tot fd =
     (let (ret, strm1, used, produced) =
            (case m of
               Decode \<Rightarrow> BZ2_bzDecompress L strm next_in CHUNK
             | Encode \<Rightarrow> BZ2_bzCompress L strm next_in CHUNK action);
          out = take CHUNK produced;
          have = length out;
          (fd1, n1) = xwrite fd out;
          tot1 = tot + n1
      in if have = CHUNK then bzip2_inner L m action strm1 (drop used next_in) tot1 fd1
         else Some (strm1, tot1, fd1))"

function bzip2_loop ::
  "'b bzlib \<Rightarrow> mode \<Rightarrow> byte list \<Rightarrow> nat \<Rightarrow> 'b \<Rightarrow> nat \<Rightarrow> byte list
    \<Rightarrow> (nat \<times> nat \<times> byte list) option" where
  "bzip2_loop L m buf pos strm tot fd =
     (let size = length buf;
          (avail_in, action) = bzip2_window pos size;
          pos1 = pos + avail_in
      in case bzip2_inner L m action strm (take avail_in (drop pos buf)) tot fd of
           None \<Rightarrow> None
         | Some (strm1, tot1, fd1) \<Rightarrow>
             if pos1 < size then bzip2_loop L m buf pos1 strm1 tot1 fd1
             else Some (pos1, tot1, fd1))"
  by pat_completeness auto
termination
  by (relation "measure (\<lambda>(L, m, buf, pos, strm, tot, fd). length buf - pos)")
     (auto simp: bzip2_window_def CHUNK_def split: if_splits)

declare bzip2_loop.simps [simp del]

text \<open>\<^verbatim>\<open>bzip2\<close> (lines 265 to 325).\<close>

definition bzip2 :: "'b bzlib \<Rightarrow> mode \<Rightarrow> byte list \<Rightarrow> (error + (nat \<times> byte list)) option" where
  "bzip2 L m buf =
     (let (ret, strm) =
            (case m of
               Decode \<Rightarrow> BZ2_bzDecompressInit L 0 0
             | Encode \<Rightarrow> BZ2_bzCompressInit L 9 0 0)
      in if ret \<noteq> BZ_OK then Some (Inl CodecInitError)
         else
           (case bzip2_loop L m buf 0 strm 0 [] of
              None \<Rightarrow> None
            | Some (pos, tot, fd) \<Rightarrow> Some (Inr (tot, fd))))"

section \<open>The LZ4 frame transcoder\<close>

text \<open>
  The LZ4 frame library (lz4frame.h) is outside the repository. A result \<open>Inl code\<close>
  is a return value for which \<^verbatim>\<open>LZ4F_isError\<close> holds. Otherwise
  \<open>LZ4F_getFrameInfo dctx src\<close> gives the context, \<^verbatim>\<open>info.blockSizeID\<close> and the
  number of bytes read; \<open>LZ4F_decompress dctx dstCapacity src\<close> gives the context, the
  return value (the size hint, 0 when the frame is complete), the bytes decoded and the number
  of bytes read; the compression functions give the context and the bytes written to the
  destination, whose number is their return value.
\<close>

record lz4f_prefs =
  autoFlush :: nat
  compressionLevel :: nat
  blockMode :: nat
  blockSizeID :: nat
  contentChecksumFlag :: nat

record ('d, 'c) lz4flib =
  LZ4F_createDecompressionContext :: "nat \<Rightarrow> nat + 'd"
  LZ4F_createCompressionContext :: "nat \<Rightarrow> nat + 'c"
  LZ4F_getFrameInfo :: "'d \<Rightarrow> byte list \<Rightarrow> nat + ('d \<times> nat \<times> nat)"
  LZ4F_decompress :: "'d \<Rightarrow> nat \<Rightarrow> byte list \<Rightarrow> nat + ('d \<times> nat \<times> byte list \<times> nat)"
  LZ4F_compressFrameBound :: "nat \<Rightarrow> nat"
  LZ4F_compressBegin :: "'c \<Rightarrow> nat \<Rightarrow> lz4f_prefs \<Rightarrow> nat + ('c \<times> byte list)"
  LZ4F_compressUpdate :: "'c \<Rightarrow> nat \<Rightarrow> byte list \<Rightarrow> nat + ('c \<times> byte list)"
  LZ4F_compressEnd :: "'c \<Rightarrow> nat \<Rightarrow> nat + ('c \<times> byte list)"

definition LZ4F_VERSION :: nat where "LZ4F_VERSION = 100"

text \<open>Line 174: \<^verbatim>\<open>blockSize = 1 << 22\<close>.\<close>

definition blockSize :: nat where
  "blockSize = push_bit 22 1"

text \<open>
  Lines 182 to 190: the output capacity for the block size of the frame header
  (\<^verbatim>\<open>LZ4F_default\<close> is 0, \<^verbatim>\<open>LZ4F_max64KB\<close> to \<^verbatim>\<open>LZ4F_max4MB\<close> are 4 to 7); any other
  value is the \<^verbatim>\<open>LOGE\<close> of the default case.
\<close>

definition lz4_outCapacity :: "nat \<Rightarrow> error + nat" where
  "lz4_outCapacity bsid =
     (if bsid = 0 \<or> bsid = 4 then Inr (push_bit 16 1)
      else if bsid = 5 then Inr (push_bit 18 1)
      else if bsid = 6 then Inr (push_bit 20 1)
      else if bsid = 7 then Inr (push_bit 22 1)
      else Inl CodecStreamError)"

text \<open>Lines 202 to 208: the preferences of the encoder, all other fields zero.\<close>

definition lz4_prefs :: lz4f_prefs where
  "lz4_prefs = \<lparr> autoFlush = 1, compressionLevel = 9, blockMode = 1, blockSizeID = 7,
                 contentChecksumFlag = 1 \<rparr>"

text \<open>Lines 216 to 220: the window of one outer iteration.\<close>

definition lz4_window :: "nat \<Rightarrow> nat \<Rightarrow> nat" where
  "lz4_window pos sz = (if sz \<le> pos + blockSize then sz - pos else blockSize)"

text \<open>
  Lines 223 to 233, the \<^verbatim>\<open>switch (mode)\<close> inside the inner loop, one function for each
  case: the codec call on the \<open>avail_in\<close> bytes at the cursor, giving the context,
  \<open>ret\<close>, the \<open>have\<close> bytes of output and \<open>read\<close>. The codec reads no more than it is
  given and writes no more than the capacity.
\<close>

definition lz4_decode_step ::
  "('d, 'c) lz4flib \<Rightarrow> 'd \<Rightarrow> nat \<Rightarrow> byte list \<Rightarrow> nat + ('d \<times> nat \<times> byte list \<times> nat)" where
  "lz4_decode_step L dctx outCapacity src =
     (case LZ4F_decompress L dctx outCapacity src of
        Inl e \<Rightarrow> Inl e
      | Inr (dctx1, ret, dst, rd) \<Rightarrow>
          Inr (dctx1, ret, take outCapacity dst, min rd (length src)))"

definition lz4_encode_step ::
  "('d, 'c) lz4flib \<Rightarrow> 'c \<Rightarrow> nat \<Rightarrow> byte list \<Rightarrow> nat + ('c \<times> nat \<times> byte list \<times> nat)" where
  "lz4_encode_step L cctx outCapacity src =
     (case LZ4F_compressUpdate L cctx outCapacity src of
        Inl e \<Rightarrow> Inl e
      | Inr (cctx1, dst) \<Rightarrow> Inr (cctx1, length dst, dst, length src))"

text \<open>
  The inner loop (lines 222 to 241) moves the cursor by \<open>read\<close> and repeats while input
  of the window is left and \<open>ret\<close> is not 0; the outer loop (lines 215 to 243) repeats
  while the cursor is inside the buffer and \<open>ret\<close> is not 0. Neither is bounded.
\<close>

partial_function (option) lz4_inner ::
  "('x \<Rightarrow> nat \<Rightarrow> byte list \<Rightarrow> nat + ('x \<times> nat \<times> byte list \<times> nat)) \<Rightarrow> 'x \<Rightarrow> byte list
    \<Rightarrow> nat \<Rightarrow> nat \<Rightarrow> nat \<Rightarrow> nat \<Rightarrow> byte list
    \<Rightarrow> (error + ('x \<times> nat \<times> nat \<times> nat \<times> byte list)) option" where
  "lz4_inner step ctx buf outCapacity pos avail_in tot fd =
     (case step ctx outCapacity (take avail_in (drop pos buf)) of
        Inl e \<Rightarrow> Some (Inl CodecStreamError)
      | Inr (ctx1, ret, out, rd) \<Rightarrow>
          let (fd1, n1) = xwrite fd out;
              tot1 = tot + n1;
              pos1 = pos + rd;
              avail1 = avail_in - rd
          in if avail1 \<noteq> 0 \<and> ret \<noteq> 0
             then lz4_inner step ctx1 buf outCapacity pos1 avail1 tot1 fd1
             else Some (Inr (ctx1, ret, pos1, tot1, fd1)))"

partial_function (option) lz4_loop ::
  "('x \<Rightarrow> nat \<Rightarrow> byte list \<Rightarrow> nat + ('x \<times> nat \<times> byte list \<times> nat)) \<Rightarrow> 'x \<Rightarrow> byte list
    \<Rightarrow> nat \<Rightarrow> nat \<Rightarrow> nat \<Rightarrow> byte list
    \<Rightarrow> (error + ('x \<times> nat \<times> nat \<times> byte list)) option" where
  "lz4_loop step ctx buf outCapacity pos tot fd =
     (let size = length buf;
          avail_in = lz4_window pos size
      in case lz4_inner step ctx buf outCapacity pos avail_in tot fd of
           None \<Rightarrow> None
         | Some (Inl e) \<Rightarrow> Some (Inl e)
         | Some (Inr (ctx1, ret, pos1, tot1, fd1)) \<Rightarrow>
             if pos1 < size \<and> ret \<noteq> 0
             then lz4_loop step ctx1 buf outCapacity pos1 tot1 fd1
             else Some (Inr (ctx1, pos1, tot1, fd1)))"

text \<open>
  \<^verbatim>\<open>lz4\<close> (lines 151 to 262). Decoding reads the frame header first, telling the library
  that \<open>blockSize\<close> bytes are there, and moves the cursor behind it; a header longer
  than the buffer is a read outside it. Encoding writes the frame header (with the input size
  as the capacity of the destination, line 209), the blocks, and the end mark of
  \<^verbatim>\<open>LZ4F_compressEnd\<close>; all three are added to \<open>total\<close>.
\<close>

definition lz4 :: "('d, 'c) lz4flib \<Rightarrow> mode \<Rightarrow> byte list \<Rightarrow> (error + (nat \<times> byte list)) option" where
  "lz4 L m buf =
     (case m of
        Decode \<Rightarrow>
          (case LZ4F_createDecompressionContext L LZ4F_VERSION of
             Inl e \<Rightarrow> Some (Inl CodecInitError)
           | Inr dctx \<Rightarrow>
               (case LZ4F_getFrameInfo L dctx (take blockSize buf) of
                  Inl e \<Rightarrow> Some (Inl CodecStreamError)
                | Inr (dctx1, bsid, rd) \<Rightarrow>
                    (case lz4_outCapacity bsid of
                       Inl e \<Rightarrow> Some (Inl e)
                     | Inr outCapacity \<Rightarrow>
                         if length buf < rd then Some (Inl BufferOverRead)
                         else
                           (case lz4_loop (lz4_decode_step L) dctx1 buf outCapacity rd 0 [] of
                              None \<Rightarrow> None
                            | Some (Inl e) \<Rightarrow> Some (Inl e)
                            | Some (Inr (dctx2, pos, tot, fd)) \<Rightarrow> Some (Inr (tot, fd))))))
      | Encode \<Rightarrow>
          (case LZ4F_createCompressionContext L LZ4F_VERSION of
             Inl e \<Rightarrow> Some (Inl CodecInitError)
           | Inr cctx \<Rightarrow>
               (let outCapacity = LZ4F_compressFrameBound L blockSize
                in (case LZ4F_compressBegin L cctx (length buf) lz4_prefs of
                      Inl e \<Rightarrow> Some (Inl CodecStreamError)
                    | Inr (cctx1, header) \<Rightarrow>
                        (let (fd0, n0) = xwrite [] header
                         in (case lz4_loop (lz4_encode_step L) cctx1 buf outCapacity 0 n0 fd0 of
                               None \<Rightarrow> None
                             | Some (Inl e) \<Rightarrow> Some (Inl e)
                             | Some (Inr (cctx2, pos, tot, fd)) \<Rightarrow>
                                 (case LZ4F_compressEnd L cctx2 outCapacity of
                                    Inl e \<Rightarrow> Some (Inl CodecStreamError)
                                  | Inr (cctx3, footer) \<Rightarrow>
                                      (let (fd1, n1) = xwrite fd footer
                                       in Some (Inr (tot + n1, fd1))))))))))"

section \<open>The dispatcher\<close>

text \<open>
  Modelled from the spec: \<^verbatim>\<open>file_t\<close> (magiskboot.h, not under src/) is the format tag,
  one of gzip, xz, legacy LZMA, bzip2, LZ4 frame, LZ4 legacy and unknown.
\<close>

datatype file_t = UNKNOWN | GZIP | XZ | LZMA | BZIP2 | LZ4 | LZ4_LEGACY

text \<open>The libraries and the stdio constant the transcoders are linked with.\<close>

record ('z, 'l, 'b, 'd, 'c) libs =
  libz :: "'z zlib"
  liblzma :: "'l lzmalib"
  BUFSIZ :: nat
  libbz2 :: "'b bzlib"
  liblz4f :: "('d, 'c) lz4flib"
  liblz4 :: lz4lib

text \<open>
  \<^verbatim>\<open>decomp\<close> and \<^verbatim>\<open>comp\<close> (lines 387 to 426) return \<^verbatim>\<open>long long\<close>: the
  \<open>total\<close> of the transcoder, or \<open>- 1\<close> for a tag without one. The bytes written come
  with it.
\<close>

definition as_long_long ::
  "(error + (nat \<times> byte list)) option \<Rightarrow> (error + (int \<times> byte list)) option" where
  "as_long_long r = map_option (map_sum id (\<lambda>(tot, fd). (int tot, fd))) r"

definition decomp ::
  "('z, 'l, 'b, 'd, 'c) libs \<Rightarrow> file_t \<Rightarrow> byte list \<Rightarrow> (error + (int \<times> byte list)) option" where
  "decomp E type from =
     (case type of
        GZIP \<Rightarrow> as_long_long (gzip (libz E) Decode from)
      | XZ \<Rightarrow> as_long_long (lzma (liblzma E) (BUFSIZ E) LzmaDecode from)
      | LZMA \<Rightarrow> as_long_long (lzma (liblzma E) (BUFSIZ E) LzmaDecode from)
      | BZIP2 \<Rightarrow> as_long_long (bzip2 (libbz2 E) Decode from)
      | LZ4 \<Rightarrow> as_long_long (lz4 (liblz4f E) Decode from)
      | LZ4_LEGACY \<Rightarrow> as_long_long (Some (lz4_legacy (liblz4 E) Decode from))
      | _ \<Rightarrow> Some (Inr (- 1, [])))"

definition comp ::
  "('z, 'l, 'b, 'd, 'c) libs \<Rightarrow> file_t \<Rightarrow> byte list \<Rightarrow> (error + (int \<times> byte list)) option" where
  "comp E type from =
     (case type of
        GZIP \<Rightarrow> as_long_long (gzip (libz E) Encode from)
      | XZ \<Rightarrow> as_long_long (lzma (liblzma E) (BUFSIZ E) XzEncode from)
      | LZMA \<Rightarrow> as_long_long (lzma (liblzma E) (BUFSIZ E) LzmaEncode from)
      | BZIP2 \<Rightarrow> as_long_long (bzip2 (libbz2 E) Encode from)
      | LZ4 \<Rightarrow> as_long_long (lz4 (liblz4f E) Encode from)
      | LZ4_LEGACY \<Rightarrow> as_long_long (Some (lz4_legacy (liblz4 E) Encode from))
      | _ \<Rightarrow> Some (Inr (- 1, [])))"

section \<open>The command-line helpers\<close>

text \<open>
  C's \<^verbatim>\<open>strrchr\<close>: the rest of the string from the last occurrence of the character,
  \<open>None\<close> for \<^verbatim>\<open>NULL\<close>.
\<close>

fun strrchr :: "string \<Rightarrow> char \<Rightarrow> string option" where
  "strrchr [] c = None"
| "strrchr (x # xs) c =
     (case strrchr xs c of
        Some r \<Rightarrow> Some r
      | None \<Rightarrow> if x = c then Some (x # xs) else None)"

text \<open>
  What a helper leaves behind: the path it wrote, the bytes it wrote there and whether it
  unlinked the source file.
\<close>

record file_result =
  dest :: string
  content :: "byte list"
  unlinked :: bool

text \<open>
  Lines 444 to 468 of \<^verbatim>\<open>decomp_file\<close>: the flag \<open>ok\<close> for a file type and the
  extension \<open>ext\<close>; the default case is the \<^verbatim>\<open>LOGE\<close> for a file that is no supported
  archive.
\<close>

definition ext_ok :: "file_t \<Rightarrow> string \<Rightarrow> error + bool" where
  "ext_ok type ext =
     (case type of
        GZIP \<Rightarrow> Inr (ext = ''.gz'')
      | XZ \<Rightarrow> Inr (ext = ''.xz'')
      | LZMA \<Rightarrow> Inr (ext = ''.lzma'')
      | BZIP2 \<Rightarrow> Inr (ext = ''.bz2'')
      | LZ4_LEGACY \<Rightarrow> Inr (ext = ''.lz4'')
      | LZ4 \<Rightarrow> Inr (ext = ''.lz4'')
      | _ \<Rightarrow> Inl UnsupportedFormat)"

text \<open>
  \<^verbatim>\<open>decomp_file\<close> (lines 432 to 487). \<open>file\<close> is the content that \<^verbatim>\<open>mmap_ro\<close>
  maps and \<open>check_type\<close> the format detection, both outside this file; \<open>to\<close> is
  \<open>None\<close> for \<^verbatim>\<open>NULL\<close>. Both \<^verbatim>\<open>LOGE\<close> about a bad filename extension are
  \<open>ExtensionMismatch\<close>. Without a destination the output goes to the source path cut at
  the extension, and the source is unlinked afterwards.
\<close>

definition decomp_file ::
  "('z, 'l, 'b, 'd, 'c) libs \<Rightarrow> (byte list \<Rightarrow> file_t) \<Rightarrow> byte list \<Rightarrow> string \<Rightarrow> string option
    \<Rightarrow> (error + file_result) option" where
  "decomp_file E check_type file from to =
     (let type = check_type file
      in case strrchr from CHR ''.'' of
           None \<Rightarrow> Some (Inl ExtensionMismatch)
         | Some ext \<Rightarrow>
             (case ext_ok type ext of
                Inl e \<Rightarrow> Some (Inl e)
              | Inr ok \<Rightarrow>
                  if ok then
                    (let to1 = (case to of
                                  None \<Rightarrow> take (length from - length ext) from
                                | Some t \<Rightarrow> t)
                     in (case decomp E type file of
                           None \<Rightarrow> None
                         | Some (Inl e) \<Rightarrow> Some (Inl e)
                         | Some (Inr (n, fd)) \<Rightarrow>
                             Some (Inr \<lparr> dest = to1, content = fd, unlinked = (to = None) \<rparr>)))
                  else Some (Inl ExtensionMismatch)))"

text \<open>
  Lines 492 to 516 of \<^verbatim>\<open>comp_file\<close>: the format tag and the extension for a method
  name; the last branch prints the supported methods and exits.
\<close>

definition comp_method :: "string \<Rightarrow> error + (file_t \<times> string)" where
  "comp_method method =
     (if method = ''gzip'' then Inr (GZIP, ''gz'')
      else if method = ''xz'' then Inr (XZ, ''xz'')
      else if method = ''lzma'' then Inr (LZMA, ''lzma'')
      else if method = ''lz4'' then Inr (LZ4, ''lz4'')
      else if method = ''lz4_legacy'' then Inr (LZ4_LEGACY, ''lz4'')
      else if method = ''bzip2'' then Inr (BZIP2, ''bz2'')
      else Inl UnknownMethod)"

text \<open>
  \<^verbatim>\<open>comp_file\<close> (lines 489 to 531). \<^verbatim>\<open>PATH_MAX\<close> is the constant of limits.h, a
  parameter here: \<^verbatim>\<open>snprintf\<close> cuts the destination to \<open>PATH_MAX - 1\<close> characters,
  and \<^verbatim>\<open>strcpy\<close> of a longer destination writes beyond the array.
\<close>

definition comp_file ::
  "('z, 'l, 'b, 'd, 'c) libs \<Rightarrow> nat \<Rightarrow> string \<Rightarrow> byte list \<Rightarrow> string \<Rightarrow> string option
    \<Rightarrow> (error + file_result) option" where
  "comp_file E PATH_MAX method file from to =
     (case comp_method method of
        Inl e \<Rightarrow> Some (Inl e)
      | Inr (type, ext) \<Rightarrow>
          (case (case to of
                   None \<Rightarrow> Inr (take (PATH_MAX - 1) (from @ ''.'' @ ext))
                 | Some t \<Rightarrow> if PATH_MAX \<le> length t then Inl BufferOverflow else Inr t) of
             Inl e \<Rightarrow> Some (Inl e)
           | Inr dest1 \<Rightarrow>
               (case comp E type file of
                  None \<Rightarrow> None
                | Some (Inl e) \<Rightarrow> Some (Inl e)
                | Some (Inr (n, fd)) \<Rightarrow>
                    Some (Inr \<lparr> dest = dest1, content = fd, unlinked = (to = None) \<rparr>))))"

section \<open>Reference instances of the libraries\<close>

text \<open>
  The theorems below hold for every library. To run the transcoders on concrete buffers the
  libraries are instantiated with the simplest codecs of each interface. For LZ4 blocks that
  is the block made of one sequence of literals, which is what the format prescribes for an
  input too short to hold a match (less than 13 bytes): a token with the literal length in
  its high nibble, the length continued in bytes of 255 when it is 15 or more, and the
  literals.
\<close>

fun lz4_len_ext :: "nat \<Rightarrow> byte list" where
  "lz4_len_ext n = (if 255 \<le> n then 255 # lz4_len_ext (n - 255) else [of_nat n])"

declare lz4_len_ext.simps [simp del]

definition lz4_literal_block :: "byte list \<Rightarrow> byte list" where
  "lz4_literal_block src =
     (if length src < 15 then of_nat (16 * length src) # src
      else 0xF0 # lz4_len_ext (length src - 15) @ src)"

fun lz4_read_ext :: "byte list \<Rightarrow> nat \<Rightarrow> (nat \<times> byte list) option" where
  "lz4_read_ext [] acc = None"
| "lz4_read_ext (b # bs) acc =
     (if b = 255 then lz4_read_ext bs (acc + 255) else Some (acc + unat b, bs))"

definition lz4_literal_decode :: "byte list \<Rightarrow> nat \<Rightarrow> byte list option" where
  "lz4_literal_decode src cap =
     (case src of
        [] \<Rightarrow> None
      | t # rest \<Rightarrow>
          if unat t mod 16 \<noteq> 0 then None
          else
            (case (if unat t div 16 = 15 then lz4_read_ext rest 15
                   else Some (unat t div 16, rest)) of
               None \<Rightarrow> None
             | Some (n, lits) \<Rightarrow> if length lits = n \<and> n \<le> cap then Some lits else None))"

text \<open>The bound is the macro as lz4.h defines it.\<close>

definition lz4_ref :: lz4lib where
  "lz4_ref =
     \<lparr> LZ4_compress_HC =
         (\<lambda>src cap level. let c = lz4_literal_block src in if length c \<le> cap then c else []),
       LZ4_decompress_safe = lz4_literal_decode,
       LZ4_COMPRESSBOUND =
         (\<lambda>isize. if 0x7E000000 < isize then 0 else isize + isize div 255 + 16) \<rparr>"

text \<open>
  For the stream libraries the instance is the codec that stores: every call consumes the
  input it is given and produces it unchanged, and reports success.
\<close>

definition stored_code :: "unit \<Rightarrow> byte list \<Rightarrow> nat \<Rightarrow> int \<times> unit \<times> nat \<times> byte list" where
  "stored_code strm next_in avail_out = (0, (), length next_in, next_in)"

definition zlib_ref :: "unit zlib" where
  "zlib_ref =
     \<lparr> inflateInit2 = (\<lambda>w. (0, ())),
       deflateInit2 = (\<lambda>level method w mem strategy. (0, ())),
       inflate = (\<lambda>strm next_in avail_out flush. stored_code strm next_in avail_out),
       deflate = (\<lambda>strm next_in avail_out flush. stored_code strm next_in avail_out) \<rparr>"

definition lzma_ref :: "unit lzmalib" where
  "lzma_ref =
     \<lparr> lzma_auto_decoder = (\<lambda>memlimit flags. (0, ())),
       lzma_stream_encoder = (\<lambda>preset check. (0, ())),
       lzma_alone_encoder = (\<lambda>preset. (0, ())),
       lzma_code = (\<lambda>strm next_in avail_out action. stored_code strm next_in avail_out) \<rparr>"

definition bzlib_ref :: "unit bzlib" where
  "bzlib_ref =
     \<lparr> BZ2_bzDecompressInit = (\<lambda>verbosity small. (0, ())),
       BZ2_bzCompressInit = (\<lambda>blockSize100k verbosity workFactor. (0, ())),
       BZ2_bzDecompress = stored_code,
       BZ2_bzCompress = (\<lambda>strm next_in avail_out action. stored_code strm next_in avail_out) \<rparr>"

definition lz4f_ref :: "(unit, unit) lz4flib" where
  "lz4f_ref =
     \<lparr> LZ4F_createDecompressionContext = (\<lambda>version. Inr ()),
       LZ4F_createCompressionContext = (\<lambda>version. Inr ()),
       LZ4F_getFrameInfo = (\<lambda>dctx src. Inr ((), 7, 0)),
       LZ4F_decompress = (\<lambda>dctx dstCapacity src. Inr ((), 1, src, length src)),
       LZ4F_compressFrameBound = (\<lambda>srcSize. srcSize),
       LZ4F_compressBegin = (\<lambda>cctx dstCapacity prefs. Inr ((), [])),
       LZ4F_compressUpdate = (\<lambda>cctx dstCapacity src. Inr ((), src)),
       LZ4F_compressEnd = (\<lambda>cctx dstCapacity. Inr ((), [])) \<rparr>"

text \<open>\<open>BUFSIZ\<close> is 1024 in the C library of Android, the platform of the program.\<close>

definition libs_ref :: "(unit, unit, unit, unit, unit) libs" where
  "libs_ref =
     \<lparr> libz = zlib_ref, liblzma = lzma_ref, BUFSIZ = 1024, libbz2 = bzlib_ref,
       liblz4f = lz4f_ref, liblz4 = lz4_ref \<rparr>"


section \<open>The layout of an LZ4 legacy stream\<close>

text \<open>
  The layout the spec gives for the encoder's output, to compare the loop with: the input is
  taken in blocks of at most 8 MiB. \<open>legacy_blocks\<close> cuts a buffer that way; for the
  empty buffer it gives one empty block, as the loop of the source does, which runs once
  before it tests the cursor. \<open>hc_block\<close> is a block compressed at level 9 into
  a destination of the bound's size, \<open>legacy_frame\<close> the compressed block behind its
  4-byte length, \<open>legacy_frames\<close> the frames of a list of blocks one after the other.
\<close>

function legacy_blocks :: "byte list \<Rightarrow> byte list list" where
  "legacy_blocks buf =
     (if length buf \<le> LZ4_LEGACY_BLOCKSIZE then [buf]
      else take LZ4_LEGACY_BLOCKSIZE buf # legacy_blocks (drop LZ4_LEGACY_BLOCKSIZE buf))"
  by pat_completeness auto
termination
  by (relation "measure length") (auto simp: LZ4_LEGACY_BLOCKSIZE_def)

declare legacy_blocks.simps [simp del]

definition hc_block :: "lz4lib \<Rightarrow> byte list \<Rightarrow> byte list" where
  "hc_block L b = LZ4_compress_HC L b (LZ4_COMPRESSBOUND L LZ4_LEGACY_BLOCKSIZE) 9"

definition legacy_frame :: "lz4lib \<Rightarrow> byte list \<Rightarrow> byte list" where
  "legacy_frame L b = le32 (of_nat (length (hc_block L b))) @ hc_block L b"

definition legacy_frames :: "lz4lib \<Rightarrow> byte list list \<Rightarrow> byte list" where
  "legacy_frames L bs = concat (map (legacy_frame L) bs)"

text \<open>
  What the transcoder needs of the library for one block: the compressor succeeds and stays
  within the bound, and the decompressor gives the block back.
\<close>

definition lz4_block_ok :: "lz4lib \<Rightarrow> byte list \<Rightarrow> bool" where
  "lz4_block_ok L b \<longleftrightarrow>
     hc_block L b \<noteq> [] \<and>
     length (hc_block L b) \<le> LZ4_COMPRESSBOUND L LZ4_LEGACY_BLOCKSIZE \<and>
     LZ4_decompress_safe L (hc_block L b) LZ4_LEGACY_BLOCKSIZE = Some b"

section \<open>The expected suffix of a container type\<close>

text \<open>
  The spec's table for decompression: \<^verbatim>\<open>.gz\<close>, \<^verbatim>\<open>.xz\<close>, \<^verbatim>\<open>.lzma\<close>, \<^verbatim>\<open>.bz2\<close>
  and, for both LZ4 variants, \<^verbatim>\<open>.lz4\<close>; the unknown type has none.
\<close>

fun spec_suffix :: "file_t \<Rightarrow> string option" where
  "spec_suffix GZIP = Some ''.gz''"
| "spec_suffix XZ = Some ''.xz''"
| "spec_suffix LZMA = Some ''.lzma''"
| "spec_suffix BZIP2 = Some ''.bz2''"
| "spec_suffix LZ4 = Some ''.lz4''"
| "spec_suffix LZ4_LEGACY = Some ''.lz4''"
| "spec_suffix UNKNOWN = None"

section \<open>Libraries to run the transcoders with\<close>

text \<open>
  Three more instances of the library interfaces, to observe what the transcoders do with a
  library. In the first, every stream carries a mark that tells which initialisation function
  made it, and the codec writes the mark before the bytes it is given.
\<close>

definition mark_code :: "byte \<Rightarrow> byte list \<Rightarrow> int \<times> byte \<times> nat \<times> byte list" where
  "mark_code strm next_in = (0, strm, length next_in, strm # next_in)"

definition zlib_mark :: "byte zlib" where
  "zlib_mark =
     \<lparr> inflateInit2 = (\<lambda>w. (0, 0x01)),
       deflateInit2 = (\<lambda>level method w mem strategy. (0, 0x02)),
       inflate = (\<lambda>strm next_in avail_out flush. mark_code strm next_in),
       deflate = (\<lambda>strm next_in avail_out flush. mark_code strm next_in) \<rparr>"

definition lzma_mark :: "byte lzmalib" where
  "lzma_mark =
     \<lparr> lzma_auto_decoder = (\<lambda>memlimit flags. (0, 0x03)),
       lzma_stream_encoder = (\<lambda>preset check. (0, 0x04)),
       lzma_alone_encoder = (\<lambda>preset. (0, 0x05)),
       lzma_code = (\<lambda>strm next_in avail_out action. mark_code strm next_in) \<rparr>"

definition bzlib_mark :: "byte bzlib" where
  "bzlib_mark =
     \<lparr> BZ2_bzDecompressInit = (\<lambda>verbosity small. (0, 0x06)),
       BZ2_bzCompressInit = (\<lambda>blockSize100k verbosity workFactor. (0, 0x07)),
       BZ2_bzDecompress = (\<lambda>strm next_in avail_out. mark_code strm next_in),
       BZ2_bzCompress = (\<lambda>strm next_in avail_out action. mark_code strm next_in) \<rparr>"

definition lz4f_mark :: "(byte, byte) lz4flib" where
  "lz4f_mark =
     \<lparr> LZ4F_createDecompressionContext = (\<lambda>version. Inr 0x08),
       LZ4F_createCompressionContext = (\<lambda>version. Inr 0x09),
       LZ4F_getFrameInfo = (\<lambda>dctx src. Inr (dctx, 7, 0)),
       LZ4F_decompress = (\<lambda>dctx dstCapacity src. Inr (dctx, 0, dctx # src, length src)),
       LZ4F_compressFrameBound = (\<lambda>srcSize. srcSize),
       LZ4F_compressBegin = (\<lambda>cctx dstCapacity prefs. Inr (cctx, [])),
       LZ4F_compressUpdate = (\<lambda>cctx dstCapacity src. Inr (cctx, cctx # src)),
       LZ4F_compressEnd = (\<lambda>cctx dstCapacity. Inr (cctx, [])) \<rparr>"

definition libs_mark :: "(byte, byte, byte, byte, byte) libs" where
  "libs_mark =
     \<lparr> libz = zlib_mark, liblzma = lzma_mark, BUFSIZ = 1024, libbz2 = bzlib_mark,
       liblz4f = lz4f_mark, liblz4 = lz4_ref \<rparr>"











section \<open>The windows of a buffer\<close>

text \<open>
  What the spec says of the stream transcoders, to compare the loops with: the input is
  taken in windows of the chunk size, the last window is what is left (for the empty buffer,
  one empty window), and it is the one given to the codec with the finish action.
  \<open>run_windows\<close> hands the windows to an inner loop one after the other, telling it
  which is the last, and stops at the first failure; \<open>at_end\<close> is the result of an
  outer loop that ends with the cursor at the end of the input.
\<close>

function windows :: "nat \<Rightarrow> byte list \<Rightarrow> byte list list" where
  "windows n buf =
     (if n = 0 \<or> length buf \<le> n then [buf] else take n buf # windows n (drop n buf))"
  by pat_completeness auto
termination
  by (relation "measure (\<lambda>(n, buf). length buf)") auto

declare windows.simps [simp del]






section \<open>The codec calls of a run\<close>














section \<open>Properties of the LZ4 legacy transcoder\<close>

subsection \<open>Words in memory\<close>

lemma length_le32 [simp]: "length (le32 w) = 4"
  by (simp add: le32_def Let_def)


lemma unat_byte_of_nat: "n < 256 \<Longrightarrow> unat (of_nat n :: byte) = n"
  by (simp add: unat_of_nat)

lemma le32_digits:
  fixes n :: nat
  assumes "n < 4294967296"
  shows "n mod 256 + 256 * (n div 256 mod 256) + 65536 * (n div 65536 mod 256)
          + 16777216 * (n div 16777216 mod 256) = n"
proof -
  define q1 where "q1 = n div 256"
  define q2 where "q2 = q1 div 256"
  define q3 where "q3 = q2 div 256"
  have e0: "n = n mod 256 + 256 * q1" by (simp add: q1_def)
  have e1: "q1 = q1 mod 256 + 256 * q2" by (simp add: q2_def)
  have e2: "q2 = q2 mod 256 + 256 * q3" by (simp add: q3_def)
  have d2: "n div 65536 = q2" by (simp add: q2_def q1_def div_mult2_eq)
  have d3: "n div 16777216 = q3" by (simp add: q3_def q2_def q1_def div_mult2_eq)
  have "q3 < 256" using assms unfolding d3 [symmetric] by (simp add: less_mult_imp_div_less)
  then have e3: "q3 mod 256 = q3" by simp
  have "n mod 256 + 256 * (q1 mod 256) + 65536 * (q2 mod 256) + 16777216 * q3
      = n mod 256 + 256 * (q1 mod 256 + 256 * (q2 mod 256 + 256 * q3))"
    by (simp only: distrib_left mult.assoc [symmetric] add.assoc)
  also have "\<dots> = n" using e0 e1 e2 by (simp only:)
  finally show ?thesis by (simp only: d2 d3 e3 q1_def [symmetric])
qed

lemma rd32_le32 [simp]: "rd32 (le32 w) = w"
proof -
  define n where "n = unat w"
  have n: "n < 4294967296" using unsigned_less [of w, where ?'a = nat] by (simp add: n_def)
  have "rd32 (le32 w) = of_nat (n mod 256 + 256 * (n div 256 mod 256) + 65536 * (n div 65536 mod 256)
          + 16777216 * (n div 16777216 mod 256))"
    by (simp add: rd32_def le32_def Let_def n_def [symmetric] unat_byte_of_nat)
  then show ?thesis by (simp only: le32_digits [OF n]) (simp add: n_def)
qed

subsection \<open>One round of the loop\<close>

lemma enc_step:
  "lz4_legacy_loop L Encode buf pos tot fd =
     (let insize = (if length buf \<le> pos + LZ4_LEGACY_BLOCKSIZE then length buf - pos
                    else LZ4_LEGACY_BLOCKSIZE);
          out = hc_block L (take insize (drop pos buf))
      in if out = [] then Inl CodecStreamError
         else if pos + insize < length buf
           then lz4_legacy_loop L Encode buf (pos + insize) (tot + 4 + of_nat (length out))
                  (fd @ le32 (of_nat (length out)) @ out)
           else Inr (pos + insize, tot + 4 + of_nat (length out),
                  fd @ le32 (of_nat (length out)) @ out))"
  by (subst lz4_legacy_loop.simps) (simp add: Let_def xwrite_def hc_block_def)

lemma dec_step:
  "lz4_legacy_loop L Decode buf pos tot fd =
     (if length buf < pos + 4 then Inl BufferOverRead
      else let bs = unat (rd32 (take 4 (drop pos buf)))
        in if LZ4_COMPRESSBOUND L LZ4_LEGACY_BLOCKSIZE < bs then Inr (pos + 4, tot, fd)
           else if length buf < pos + 4 + bs then Inl BufferOverRead
           else (case LZ4_decompress_safe L (take bs (drop (pos + 4) buf)) LZ4_LEGACY_BLOCKSIZE of
                   None \<Rightarrow> Inl CodecStreamError
                 | Some out \<Rightarrow>
                     if pos + 4 + bs < length buf
                     then lz4_legacy_loop L Decode buf (pos + 4 + bs) (tot + of_nat (length out))
                            (fd @ out)
                     else Inr (pos + 4 + bs, tot + of_nat (length out), fd @ out)))"
  by (subst lz4_legacy_loop.simps) (simp add: Let_def xwrite_def split: option.split)

subsection \<open>The blocks of a buffer\<close>

lemma legacy_blocks_concat: "concat (legacy_blocks buf) = buf"
  by (induction buf rule: legacy_blocks.induct) (subst legacy_blocks.simps, simp)

lemma BS_pos: "0 < LZ4_LEGACY_BLOCKSIZE"
  by (simp add: LZ4_LEGACY_BLOCKSIZE_def)

lemma legacy_blocks_length_le:
  "b \<in> set (legacy_blocks buf) \<Longrightarrow> length b \<le> LZ4_LEGACY_BLOCKSIZE"
proof (induction buf rule: legacy_blocks.induct)
  case (1 buf)
  from "1.prems" have "b \<in> set (if length buf \<le> LZ4_LEGACY_BLOCKSIZE then [buf]
      else take LZ4_LEGACY_BLOCKSIZE buf # legacy_blocks (drop LZ4_LEGACY_BLOCKSIZE buf))"
    by (subst (asm) legacy_blocks.simps) simp
  then show ?case
    using "1.IH" by (auto split: if_splits)
qed

lemma ceil_small: "0 < B \<Longrightarrow> n \<le> B \<Longrightarrow> (n + B - 1) div B \<le> (1::nat)"
proof -
  assume "0 < B" "n \<le> B"
  then have "n + B - 1 < 2 * B" by simp
  then have "(n + B - 1) div B < 2" by (rule less_mult_imp_div_less)
  then show ?thesis by simp
qed

lemma ceil_step:
  assumes "0 < B" "\<not> n \<le> (B::nat)"
  shows "Suc (max 1 ((n - B + B - 1) div B)) = max 1 ((n + B - 1) div B)"
proof -
  have 1: "n - B + B - 1 = n - 1" using assms by simp
  have 2: "n + B - 1 = (n - 1) + B" using assms by simp
  have 3: "(n - 1 + B) div B = Suc ((n - 1) div B)"
    using assms(1) div_add_self2 [of B "n - 1"] by simp
  have "B \<le> n - 1" using assms by simp
  then have "1 \<le> (n - 1) div B" using assms(1)
    by (metis div_le_mono div_self less_numeral_extra(3))
  then show ?thesis
    unfolding 1 2 3 by (simp add: max_def)
qed

lemma legacy_blocks_count:
  "length (legacy_blocks buf) =
     max 1 ((length buf + LZ4_LEGACY_BLOCKSIZE - 1) div LZ4_LEGACY_BLOCKSIZE)"
proof (induction buf rule: legacy_blocks.induct)
  case (1 buf)
  show ?case
  proof (cases "length buf \<le> LZ4_LEGACY_BLOCKSIZE")
    case True
    have "length (legacy_blocks buf) = 1"
      using True by (subst legacy_blocks.simps) simp
    then show ?thesis
      using ceil_small [OF BS_pos True] by simp
  next
    case False
    have "length (legacy_blocks buf) = Suc (length (legacy_blocks (drop LZ4_LEGACY_BLOCKSIZE buf)))"
      using False by (subst legacy_blocks.simps) simp
    also have "\<dots> = Suc (max 1 ((length buf - LZ4_LEGACY_BLOCKSIZE + LZ4_LEGACY_BLOCKSIZE - 1)
                              div LZ4_LEGACY_BLOCKSIZE))"
      using "1.IH" False by simp
    also have "\<dots> = max 1 ((length buf + LZ4_LEGACY_BLOCKSIZE - 1) div LZ4_LEGACY_BLOCKSIZE)"
      using False by (rule ceil_step [OF BS_pos])
    finally show ?thesis .
  qed
qed

subsection \<open>The encoder\<close>

lemma enc_loop_eq:
  "lz4_legacy_loop L Encode buf pos tot fd =
     (if \<forall>b \<in> set (legacy_blocks (drop pos buf)). hc_block L b \<noteq> []
      then Inr (max pos (length buf),
                tot + of_nat (length (legacy_frames L (legacy_blocks (drop pos buf)))),
                fd @ legacy_frames L (legacy_blocks (drop pos buf)))
      else Inl CodecStreamError)"
proof (induction "length buf - pos" arbitrary: pos tot fd rule: less_induct)
  case less
  show ?case
  proof (cases "length buf \<le> pos + LZ4_LEGACY_BLOCKSIZE")
    case True
    then have blocks: "legacy_blocks (drop pos buf) = [drop pos buf]"
      by (subst legacy_blocks.simps) auto
    from True show ?thesis
      by (subst enc_step) (auto simp: Let_def blocks legacy_frames_def legacy_frame_def max_def)
  next
    case False
    then have blocks: "legacy_blocks (drop pos buf) =
        take LZ4_LEGACY_BLOCKSIZE (drop pos buf)
          # legacy_blocks (drop (pos + LZ4_LEGACY_BLOCKSIZE) buf)"
      by (subst legacy_blocks.simps) (auto simp: add.commute)
    have "length buf - (pos + LZ4_LEGACY_BLOCKSIZE) < length buf - pos"
      using False BS_pos by simp
    note IH = less [OF this]
    from False show ?thesis
      by (subst enc_step) (simp add: Let_def blocks IH legacy_frames_def legacy_frame_def max_def add.assoc)
  qed
qed

lemma unat_of_nat32: "unat (of_nat n :: 32 word) = n mod 4294967296"
  by (simp add: unat_of_nat)

lemma lz4_legacy_encode_eq:
  "lz4_legacy L Encode buf =
     (if \<forall>b \<in> set (legacy_blocks buf). hc_block L b \<noteq> []
      then Inr ((4 + length (legacy_frames L (legacy_blocks buf))) mod 4294967296,
                lz4_legacy_magic @ legacy_frames L (legacy_blocks buf) @ le32 (of_nat (length buf)))
      else Inl CodecStreamError)"
proof -
  have "(4 :: 32 word) + of_nat n = of_nat (4 + n)" for n by simp
  then show ?thesis
    by (simp add: lz4_legacy_def xwrite_def enc_loop_eq lz4_legacy_magic_def unat_of_nat32
             del: of_nat_add)
qed

subsection \<open>The decoder\<close>

lemma dec_loop_total:
  "lz4_legacy_loop L Decode buf pos tot fd = Inr (pos', tot', fd') \<Longrightarrow>
   \<exists>w. fd' = fd @ w \<and> tot' = tot + of_nat (length w) \<and> pos' \<le> length buf"
proof (induction "length buf - pos" arbitrary: pos tot fd rule: less_induct)
  case less
  from less.prems have inb: "pos + 4 \<le> length buf"
    by (subst (asm) dec_step) (simp split: if_splits)
  define bs where "bs = unat (rd32 (take 4 (drop pos buf)))"
  show ?case
  proof (cases "LZ4_COMPRESSBOUND L LZ4_LEGACY_BLOCKSIZE < bs")
    case True
    with less.prems inb show ?thesis
      by (subst (asm) dec_step) (simp add: Let_def bs_def [symmetric])
  next
    case False
    from less.prems inb False have inb2: "pos + 4 + bs \<le> length buf"
      by (subst (asm) dec_step) (simp add: Let_def bs_def [symmetric] split: if_splits)
    from less.prems inb False inb2 obtain out where
      out: "LZ4_decompress_safe L (take bs (drop (pos + 4) buf)) LZ4_LEGACY_BLOCKSIZE = Some out"
      by (subst (asm) dec_step)
         (auto simp add: Let_def bs_def [symmetric] split: if_splits option.splits)
    show ?thesis
    proof (cases "pos + 4 + bs < length buf")
      case True
      with less.prems inb False inb2 out have
        rec: "lz4_legacy_loop L Decode buf (pos + 4 + bs) (tot + of_nat (length out)) (fd @ out)
                = Inr (pos', tot', fd')"
        by (subst (asm) dec_step) (simp add: Let_def bs_def [symmetric])
      have "length buf - (pos + 4 + bs) < length buf - pos" using True by simp
      from less.hyps [OF this rec] show ?thesis
        by (auto simp: add.assoc)
    next
      case False
      with less.prems inb \<open>\<not> LZ4_COMPRESSBOUND L LZ4_LEGACY_BLOCKSIZE < bs\<close> inb2 out
      show ?thesis
        by (subst (asm) dec_step) (auto simp add: Let_def bs_def [symmetric])
    qed
  qed
qed


lemma unat_len32: "n < 4294967296 \<Longrightarrow> unat (of_nat n :: 32 word) = n"
  by (simp add: unat_of_nat)

lemma dec_frame:
  assumes ok: "lz4_block_ok L b"
    and cb: "LZ4_COMPRESSBOUND L LZ4_LEGACY_BLOCKSIZE < 4294967296"
    and rest: "rest \<noteq> []"
  shows "lz4_legacy_loop L Decode (pre @ legacy_frame L b @ rest) (length pre) tot fd =
         lz4_legacy_loop L Decode (pre @ legacy_frame L b @ rest)
           (length pre + length (legacy_frame L b)) (tot + of_nat (length b)) (fd @ b)"
proof -
  define c where "c = hc_block L b"
  have c: "c \<noteq> []" "length c \<le> LZ4_COMPRESSBOUND L LZ4_LEGACY_BLOCKSIZE"
    "LZ4_decompress_safe L c LZ4_LEGACY_BLOCKSIZE = Some b"
    using ok by (simp_all add: lz4_block_ok_def c_def)
  have len: "unat (of_nat (length c) :: 32 word) = length c"
    using c(2) cb by (simp add: unat_len32)
  have frame: "legacy_frame L b = le32 (of_nat (length c)) @ c"
    by (simp add: legacy_frame_def c_def)
  have rd: "take 4 (drop (length pre) (pre @ (le32 (of_nat (length c)) @ c) @ rest))
              = le32 (of_nat (length c))"
    by simp
  have blk: "take (length c) (drop (length pre + 4) (pre @ (le32 (of_nat (length c)) @ c) @ rest)) = c"
    by simp
  show ?thesis
    unfolding frame
    by (subst dec_step) (use c rest in \<open>simp add: Let_def rd blk len add.assoc del: append_assoc\<close>)
qed

lemma dec_frames:
  assumes cb: "LZ4_COMPRESSBOUND L LZ4_LEGACY_BLOCKSIZE < 4294967296"
    and rest: "rest \<noteq> []"
  shows "\<forall>b \<in> set bs. lz4_block_ok L b \<Longrightarrow>
         lz4_legacy_loop L Decode (pre @ legacy_frames L bs @ rest) (length pre) tot fd =
         lz4_legacy_loop L Decode (pre @ legacy_frames L bs @ rest)
           (length pre + length (legacy_frames L bs)) (tot + of_nat (length (concat bs)))
           (fd @ concat bs)"
proof (induction bs arbitrary: pre tot fd)
  case Nil
  then show ?case by (simp add: legacy_frames_def)
next
  case (Cons b bs)
  have ok: "lz4_block_ok L b" and oks: "\<forall>b \<in> set bs. lz4_block_ok L b"
    using Cons.prems by simp_all
  have rest': "legacy_frames L bs @ rest \<noteq> []" using rest by simp
  have split: "pre @ legacy_frames L (b # bs) @ rest = pre @ legacy_frame L b @ (legacy_frames L bs @ rest)"
    by (simp add: legacy_frames_def)
  have split': "pre @ legacy_frame L b @ (legacy_frames L bs @ rest)
      = (pre @ legacy_frame L b) @ legacy_frames L bs @ rest"
    by simp
  have "lz4_legacy_loop L Decode (pre @ legacy_frames L (b # bs) @ rest) (length pre) tot fd =
        lz4_legacy_loop L Decode (pre @ legacy_frame L b @ (legacy_frames L bs @ rest))
          (length pre + length (legacy_frame L b)) (tot + of_nat (length b)) (fd @ b)"
    unfolding split by (rule dec_frame [OF ok cb rest'])
  also have "\<dots> = lz4_legacy_loop L Decode ((pre @ legacy_frame L b) @ legacy_frames L bs @ rest)
          (length (pre @ legacy_frame L b)) (tot + of_nat (length b)) (fd @ b)"
    by simp
  also have "\<dots> = lz4_legacy_loop L Decode ((pre @ legacy_frame L b) @ legacy_frames L bs @ rest)
          (length (pre @ legacy_frame L b) + length (legacy_frames L bs))
          (tot + of_nat (length b) + of_nat (length (concat bs))) ((fd @ b) @ concat bs)"
    by (rule Cons.IH [OF oks])
  finally show ?case
    by (simp add: legacy_frames_def add.assoc)
qed

lemma dec_trailer:
  "lz4_legacy_loop L Decode (pre @ le32 u) (length pre) tot fd =
     (if LZ4_COMPRESSBOUND L LZ4_LEGACY_BLOCKSIZE < unat u then Inr (length pre + 4, tot, fd)
      else if 0 < unat u then Inl BufferOverRead
      else (case LZ4_decompress_safe L [] LZ4_LEGACY_BLOCKSIZE of
              None \<Rightarrow> Inl CodecStreamError
            | Some out \<Rightarrow> Inr (length pre + 4, tot + of_nat (length out), fd @ out)))"
  by (subst dec_step) (simp add: Let_def split: option.split)

subsection \<open>Decoding what the encoder wrote\<close>

lemma lz4_legacy_decode_encode:
  assumes ok: "\<forall>b \<in> set (legacy_blocks buf). lz4_block_ok L b"
    and cb: "LZ4_COMPRESSBOUND L LZ4_LEGACY_BLOCKSIZE < 4294967296"
  shows "\<exists>t s. lz4_legacy L Encode buf = Inr (t, s) \<and>
           lz4_legacy L Decode s =
             (if LZ4_COMPRESSBOUND L LZ4_LEGACY_BLOCKSIZE < length buf mod 4294967296
              then Inr (length buf mod 4294967296, buf)
              else if 0 < length buf mod 4294967296 then Inl BufferOverRead
              else (case LZ4_decompress_safe L [] LZ4_LEGACY_BLOCKSIZE of
                      None \<Rightarrow> Inl CodecStreamError
                    | Some out \<Rightarrow> Inr ((length buf + length out) mod 4294967296, buf @ out)))"
proof -
  define u :: "32 word" where "u = of_nat (length buf)"
  define fr where "fr = legacy_frames L (legacy_blocks buf)"
  define s where "s = lz4_legacy_magic @ fr @ le32 u"
  have hc: "\<forall>b \<in> set (legacy_blocks buf). hc_block L b \<noteq> []"
    using ok by (simp add: lz4_block_ok_def)
  have enc: "lz4_legacy L Encode buf = Inr ((4 + length fr) mod 4294967296, s)"
    using hc by (simp add: lz4_legacy_encode_eq s_def fr_def u_def)
  have m4: "length lz4_legacy_magic = 4" by (simp add: lz4_legacy_magic_def)
  have ne: "le32 u \<noteq> []" by (simp add: le32_def Let_def)
  have "lz4_legacy_loop L Decode s 4 0 [] =
        lz4_legacy_loop L Decode s (4 + length fr) (of_nat (length buf)) buf"
    using dec_frames [OF cb ne ok, of lz4_legacy_magic 0 "[]"]
    by (simp add: s_def fr_def m4 legacy_blocks_concat)
  also have "\<dots> = lz4_legacy_loop L Decode ((lz4_legacy_magic @ fr) @ le32 u)
                     (length (lz4_legacy_magic @ fr)) (of_nat (length buf)) buf"
    by (simp add: s_def m4)
  also have "\<dots> =
     (if LZ4_COMPRESSBOUND L LZ4_LEGACY_BLOCKSIZE < unat u
      then Inr (length (lz4_legacy_magic @ fr) + 4, of_nat (length buf), buf)
      else if 0 < unat u then Inl BufferOverRead
      else (case LZ4_decompress_safe L [] LZ4_LEGACY_BLOCKSIZE of
              None \<Rightarrow> Inl CodecStreamError
            | Some out \<Rightarrow> Inr (length (lz4_legacy_magic @ fr) + 4,
                 of_nat (length buf) + of_nat (length out), buf @ out)))"
    by (rule dec_trailer)
  finally have loop: "lz4_legacy_loop L Decode s 4 0 [] =
     (if LZ4_COMPRESSBOUND L LZ4_LEGACY_BLOCKSIZE < unat u
      then Inr (length (lz4_legacy_magic @ fr) + 4, of_nat (length buf), buf)
      else if 0 < unat u then Inl BufferOverRead
      else (case LZ4_decompress_safe L [] LZ4_LEGACY_BLOCKSIZE of
              None \<Rightarrow> Inl CodecStreamError
            | Some out \<Rightarrow> Inr (length (lz4_legacy_magic @ fr) + 4,
                 of_nat (length buf) + of_nat (length out), buf @ out)))" .
  have uu: "unat u = length buf mod 4294967296" by (simp add: u_def unat_of_nat32)
  have sum: "unat ((of_nat a :: 32 word) + of_nat b) = (a + b) mod 4294967296" for a b
    using unat_of_nat32 [of "a + b"] by simp
  have "lz4_legacy L Decode s =
             (if LZ4_COMPRESSBOUND L LZ4_LEGACY_BLOCKSIZE < length buf mod 4294967296
              then Inr (length buf mod 4294967296, buf)
              else if 0 < length buf mod 4294967296 then Inl BufferOverRead
              else (case LZ4_decompress_safe L [] LZ4_LEGACY_BLOCKSIZE of
                      None \<Rightarrow> Inl CodecStreamError
                    | Some out \<Rightarrow> Inr ((length buf + length out) mod 4294967296, buf @ out)))"
    by (simp add: lz4_legacy_def loop uu unat_of_nat32 sum split: option.split)
  with enc show ?thesis by blast
qed

subsection \<open>Decoding a stream that ends behind a block\<close>




subsection \<open>Decoding a stream that was cut\<close>





subsection \<open>Claims about the LZ4 legacy transcoder\<close>

text \<open>
  C2, as amended. LZ4-legacy encoding fails when the compressor returns 0 for a block;
  otherwise it writes the magic \<^verbatim>\<open>02 21 4C 18\<close>, then one frame for each block of the
  input, in order, and last the input length modulo \<open>2\<^sup>3\<^sup>2\<close> as four little-endian
  bytes. The blocks cut the input into \<open>max 1 \<lceil>len / 8 MiB\<rceil>\<close> pieces of at most
  8 MiB each (one empty block for the empty input, not none); a frame is the four-byte
  little-endian length of the block compressed with \<^verbatim>\<open>LZ4_compress_HC\<close> at level 9,
  followed by the compressed block.
\<close>

theorem lz4_legacy_encode_stream:
  "lz4_legacy L Encode buf =
     (if \<forall>b \<in> set (legacy_blocks buf). hc_block L b \<noteq> []
      then Inr ((4 + length (legacy_frames L (legacy_blocks buf))) mod 4294967296,
                lz4_legacy_magic @ legacy_frames L (legacy_blocks buf) @ le32 (of_nat (length buf)))
      else Inl CodecStreamError)
   \<and> length (legacy_blocks buf) =
       max 1 ((length buf + LZ4_LEGACY_BLOCKSIZE - 1) div LZ4_LEGACY_BLOCKSIZE)
   \<and> concat (legacy_blocks buf) = buf
   \<and> (\<forall>b \<in> set (legacy_blocks buf). length b \<le> LZ4_LEGACY_BLOCKSIZE)
   \<and> unat (rd32 (le32 (of_nat (length buf)))) = length buf mod 4294967296"
  using legacy_blocks_length_le [of _ buf]
  by (simp add: lz4_legacy_encode_eq legacy_blocks_count legacy_blocks_concat unat_of_nat32)

theorem lz4_legacy_encode_stream_witness:
  "legacy_blocks [0x41, 0x42, 0x43] = [[0x41, 0x42, 0x43]]
   \<and> hc_block lz4_ref [0x41, 0x42, 0x43] = [0x30, 0x41, 0x42, 0x43]
   \<and> lz4_legacy lz4_ref Encode [0x41, 0x42, 0x43] =
       Inr (12, [0x02, 0x21, 0x4c, 0x18, 4, 0, 0, 0, 0x30, 0x41, 0x42, 0x43, 3, 0, 0, 0])
   \<and> length (legacy_blocks [0x41, 0x42, 0x43]) = 1"
proof -
  have blocks: "legacy_blocks [0x41, 0x42, 0x43] = [[0x41, 0x42, 0x43]]"
    by (simp add: legacy_blocks.simps LZ4_LEGACY_BLOCKSIZE_def)
  have hc: "hc_block lz4_ref [0x41, 0x42, 0x43] = [0x30, 0x41, 0x42, 0x43]"
    by (simp add: hc_block_def lz4_ref_def lz4_literal_block_def LZ4_LEGACY_BLOCKSIZE_def)
  show ?thesis
    using lz4_legacy_encode_stream [of lz4_ref "[0x41, 0x42, 0x43]"]
    by (simp add: blocks hc legacy_frames_def legacy_frame_def le32_def lz4_legacy_magic_def
          LZ4_LEGACY_BLOCKSIZE_def)
qed

text \<open>
  C2 as stated fails on the empty buffer: \<open>\<lceil>0 / 8 MiB\<rceil>\<close> is 0, but the loop runs once
  and writes one frame, the block \<^verbatim>\<open>00\<close> behind its length 1.
\<close>

theorem lz4_legacy_encode_empty:
  "lz4_legacy lz4_ref Encode [] =
     Inr (9, [0x02, 0x21, 0x4c, 0x18] @ ([1, 0, 0, 0] @ [0x00]) @ [0, 0, 0, 0])
   \<and> (length ([] :: byte list) + LZ4_LEGACY_BLOCKSIZE - 1) div LZ4_LEGACY_BLOCKSIZE = 0"
  by (simp add: lz4_legacy_def lz4_legacy_loop.simps lz4_ref_def xwrite_def le32_def
        lz4_legacy_magic_def LZ4_LEGACY_BLOCKSIZE_def lz4_literal_block_def)

text \<open>
  C1 fails for LZ4 legacy. With a library that compresses every block of the buffer within
  the bound and decompresses it again, encoding succeeds, and decoding the encoder's output
  gives the buffer back only when its length (modulo \<open>2\<^sup>3\<^sup>2\<close>) is above the bound for
  one block. For a shorter, non-empty buffer the decoder takes the trailing size field for
  the length of another block and reads that many bytes behind the end of its input; for the
  empty buffer it hands the library an empty block.
\<close>

theorem lz4_legacy_roundtrip:
  assumes ok: "\<forall>b \<in> set (legacy_blocks buf). lz4_block_ok L b"
    and cb: "LZ4_COMPRESSBOUND L LZ4_LEGACY_BLOCKSIZE < 4294967296"
  shows "\<exists>t s. lz4_legacy L Encode buf = Inr (t, s) \<and>
           lz4_legacy L Decode s =
             (if LZ4_COMPRESSBOUND L LZ4_LEGACY_BLOCKSIZE < length buf mod 4294967296
              then Inr (length buf mod 4294967296, buf)
              else if 0 < length buf mod 4294967296 then Inl BufferOverRead
              else (case LZ4_decompress_safe L [] LZ4_LEGACY_BLOCKSIZE of
                      None \<Rightarrow> Inl CodecStreamError
                    | Some out \<Rightarrow> Inr ((length buf + length out) mod 4294967296, buf @ out)))"
  using ok cb by (rule lz4_legacy_decode_encode)

theorem lz4_legacy_roundtrip_witness:
  "legacy_blocks [0x41, 0x42] = [[0x41, 0x42]]
   \<and> lz4_block_ok lz4_ref [0x41, 0x42]
   \<and> LZ4_COMPRESSBOUND lz4_ref LZ4_LEGACY_BLOCKSIZE < 4294967296
   \<and> (\<exists>t s. lz4_legacy lz4_ref Encode [0x41, 0x42] = Inr (t, s)
         \<and> lz4_legacy lz4_ref Decode s = Inl BufferOverRead)"
proof -
  have blocks: "legacy_blocks [0x41, 0x42] = [[0x41, 0x42]]"
    by (simp add: legacy_blocks.simps LZ4_LEGACY_BLOCKSIZE_def)
  have ok: "\<forall>b \<in> set (legacy_blocks [0x41, 0x42]). lz4_block_ok lz4_ref b"
    by (simp add: blocks lz4_block_ok_def hc_block_def lz4_ref_def lz4_literal_block_def
          lz4_literal_decode_def LZ4_LEGACY_BLOCKSIZE_def)
  have cb: "LZ4_COMPRESSBOUND lz4_ref LZ4_LEGACY_BLOCKSIZE < 4294967296"
    by (simp add: lz4_ref_def LZ4_LEGACY_BLOCKSIZE_def)
  have bound: "LZ4_COMPRESSBOUND lz4_ref LZ4_LEGACY_BLOCKSIZE = 8421520"
    by (simp add: lz4_ref_def LZ4_LEGACY_BLOCKSIZE_def)
  show ?thesis
    using lz4_legacy_roundtrip [OF ok cb] ok cb by (simp add: bound blocks)
qed

text \<open>
  C3 fails on the stream the encoder writes for the one-byte buffer \<^verbatim>\<open>41\<close>. The block
  of 2 bytes at offset 8 decodes to the byte. After it the cursor is at 10, four bytes before
  the end, so the loop runs again: it loads the trailing size field \<^verbatim>\<open>01 00 00 00\<close> as
  a block length, which is within the bound, and hands the library one byte at offset 14, the
  end of the 14-byte input.
\<close>

theorem lz4_legacy_decode_trailer_overread:
  "lz4_legacy lz4_ref Encode [0x41] =
     Inr (10, [0x02, 0x21, 0x4c, 0x18, 2, 0, 0, 0, 0x10, 0x41, 1, 0, 0, 0])
   \<and> rd32 (take 4 (drop 4 [0x02, 0x21, 0x4c, 0x18, 2, 0, 0, 0, 0x10, 0x41, 1, 0, 0, 0])) = 2
   \<and> LZ4_decompress_safe lz4_ref
        (take 2 (drop 8 [0x02, 0x21, 0x4c, 0x18, 2, 0, 0, 0, 0x10, 0x41, 1, 0, 0, 0]))
        LZ4_LEGACY_BLOCKSIZE = Some [0x41]
   \<and> (10 :: nat) < length [0x02, 0x21, 0x4c, 0x18, 2, 0, 0, 0, 0x10, 0x41, 1, 0, 0, 0 :: byte]
   \<and> rd32 (take 4 (drop 10 [0x02, 0x21, 0x4c, 0x18, 2, 0, 0, 0, 0x10, 0x41, 1, 0, 0, 0])) = 1
   \<and> 1 \<le> LZ4_COMPRESSBOUND lz4_ref LZ4_LEGACY_BLOCKSIZE
   \<and> length [0x02, 0x21, 0x4c, 0x18, 2, 0, 0, 0, 0x10, 0x41, 1, 0, 0, 0 :: byte] < 10 + 4 + 1
   \<and> lz4_legacy lz4_ref Decode
        [0x02, 0x21, 0x4c, 0x18, 2, 0, 0, 0, 0x10, 0x41, 1, 0, 0, 0] = Inl BufferOverRead"
  by (simp add: lz4_legacy_def lz4_legacy_loop.simps lz4_ref_def xwrite_def le32_def rd32_def
        lz4_legacy_magic_def LZ4_LEGACY_BLOCKSIZE_def lz4_literal_block_def
        lz4_literal_decode_def)

text \<open>
  C4 fails for LZ4-legacy encoding: the trailing size field is written but not counted. For
  the four-byte buffer \<^verbatim>\<open>01 02 03 04\<close> the call writes 17 bytes and returns 13.
\<close>

theorem lz4_legacy_encode_return_short:
  "lz4_legacy lz4_ref Encode [1, 2, 3, 4] =
     Inr (13, [0x02, 0x21, 0x4c, 0x18, 5, 0, 0, 0, 0x40, 1, 2, 3, 4, 4, 0, 0, 0])
   \<and> length [0x02, 0x21, 0x4c, 0x18, 5, 0, 0, 0, 0x40, 1, 2, 3, 4, 4, 0, 0, 0 :: byte] = 17"
  by (simp add: lz4_legacy_def lz4_legacy_loop.simps lz4_ref_def xwrite_def le32_def
        lz4_legacy_magic_def LZ4_LEGACY_BLOCKSIZE_def lz4_literal_block_def)

text \<open>
  C10 holds for decoding and fails for encoding. The value \<^verbatim>\<open>lz4_legacy\<close> returns is a
  count modulo \<open>2\<^sup>3\<^sup>2\<close>: of all the bytes written when decoding, but of four bytes less
  than were written when encoding, since the trailing size field is left out of the counter.
\<close>

theorem lz4_legacy_total:
  assumes "lz4_legacy L m buf = Inr (t, out)"
  shows "t = (case m of Decode \<Rightarrow> length out | Encode \<Rightarrow> length out - 4) mod 4294967296
         \<and> (m = Encode \<longrightarrow> 8 \<le> length out)"
proof (cases m)
  case Decode
  with assms obtain pos tot where
    "lz4_legacy_loop L Decode buf 4 0 [] = Inr (pos, tot, out)" "t = unat tot"
    by (auto simp: lz4_legacy_def split: sum.splits)
  with dec_loop_total [of L buf 4 0 "[]" pos tot out] Decode show ?thesis
    by (auto simp: unat_of_nat32)
next
  case Encode
  with assms show ?thesis
    by (simp add: lz4_legacy_encode_eq lz4_legacy_magic_def split: if_splits) auto
qed

theorem lz4_legacy_total_witness:
  "lz4_legacy lz4_ref Decode
     [0x02, 0x21, 0x4c, 0x18, 3, 0, 0, 0, 0x20, 0x41, 0x42, 0xff, 0xff, 0xff, 0xff] =
       Inr (2, [0x41, 0x42])
   \<and> (2 :: nat) = (case Decode of Decode \<Rightarrow> length [0x41, 0x42 :: byte]
                    | Encode \<Rightarrow> length [0x41, 0x42 :: byte] - 4) mod 4294967296"
proof -
  have run: "lz4_legacy lz4_ref Decode
     [0x02, 0x21, 0x4c, 0x18, 3, 0, 0, 0, 0x20, 0x41, 0x42, 0xff, 0xff, 0xff, 0xff] =
       Inr (2, [0x41, 0x42])"
    by (simp add: lz4_legacy_def lz4_legacy_loop.simps lz4_ref_def xwrite_def rd32_def
          LZ4_LEGACY_BLOCKSIZE_def lz4_literal_decode_def)
  from lz4_legacy_total [OF run] run show ?thesis by simp
qed

section \<open>The reference LZ4 block codec\<close>

text \<open>
  The block of literals meets what the transcoder needs of the library, for every block of
  at most 8 MiB, so the results above apply to it for every buffer.
\<close>

lemma length_lz4_len_ext: "length (lz4_len_ext n) = n div 255 + 1"
proof (induction n rule: lz4_len_ext.induct)
  case (1 n)
  show ?case
  proof (cases "255 \<le> n")
    case True
    then have "n div 255 = Suc ((n - 255) div 255)"
      by (simp add: le_div_geq)
    with True 1 show ?thesis
      by (subst lz4_len_ext.simps) simp
  next
    case False
    then show ?thesis by (subst lz4_len_ext.simps) simp
  qed
qed

lemma lz4_read_len_ext:
  "lz4_read_ext (lz4_len_ext n @ rest) acc = Some (acc + n, rest)"
proof (induction n arbitrary: acc rule: lz4_len_ext.induct)
  case (1 n)
  show ?case
  proof (cases "255 \<le> n")
    case True
    with 1 [OF True, of "acc + 255"] show ?thesis
      by (subst lz4_len_ext.simps) simp
  next
    case False
    then have u: "unat (of_nat n :: byte) = n" by (simp add: unat_of_nat)
    have ne: "(of_nat n :: byte) \<noteq> 255"
    proof
      assume "(of_nat n :: byte) = 255"
      then have "unat (of_nat n :: byte) = unat (255 :: byte)" by simp
      with u False show False by simp
    qed
    show ?thesis
      using False u ne by (subst lz4_len_ext.simps) simp
  qed
qed

lemma lz4_literal_roundtrip:
  assumes "length src \<le> cap"
  shows "lz4_literal_decode (lz4_literal_block src) cap = Some src"
proof (cases "length src < 15")
  case True
  then have "16 * length src < 256" by simp
  then have u: "unat (of_nat (16 * length src) :: byte) = 16 * length src"
    by (simp add: unat_of_nat del: of_nat_mult)
  from True assms show ?thesis
    by (simp add: lz4_literal_block_def lz4_literal_decode_def u del: of_nat_mult)
next
  case False
  have t: "unat (0xF0 :: byte) = 240" by simp
  from False assms show ?thesis
    by (simp add: lz4_literal_block_def lz4_literal_decode_def t lz4_read_len_ext)
qed

lemma length_lz4_literal_block:
  "length (lz4_literal_block src) \<le> length src + length src div 255 + 2"
proof (cases "length src < 15")
  case True
  then show ?thesis by (simp add: lz4_literal_block_def)
next
  case False
  have "(length src - 15) div 255 \<le> length src div 255"
    by (rule div_le_mono) simp
  with False show ?thesis
    by (simp add: lz4_literal_block_def length_lz4_len_ext)
qed

lemma lz4_ref_bound: "LZ4_COMPRESSBOUND lz4_ref LZ4_LEGACY_BLOCKSIZE = 8421520"
  by (simp add: lz4_ref_def LZ4_LEGACY_BLOCKSIZE_def)

lemma lz4_ref_block_ok:
  assumes "length b \<le> LZ4_LEGACY_BLOCKSIZE"
  shows "lz4_block_ok lz4_ref b"
proof -
  have "length b div 255 \<le> LZ4_LEGACY_BLOCKSIZE div 255"
    using assms by (rule div_le_mono)
  then have "length b div 255 \<le> 32896" by (simp add: LZ4_LEGACY_BLOCKSIZE_def)
  with assms length_lz4_literal_block [of b]
  have len: "length (lz4_literal_block b) \<le> 8421520"
    by (simp add: LZ4_LEGACY_BLOCKSIZE_def)
  have ne: "lz4_literal_block b \<noteq> []" by (simp add: lz4_literal_block_def)
  have hc: "hc_block lz4_ref b = lz4_literal_block b"
    using len by (simp add: hc_block_def lz4_ref_bound) (simp add: lz4_ref_def)
  show ?thesis
    using len ne assms
    by (simp add: lz4_block_ok_def hc lz4_ref_bound)
       (simp add: lz4_ref_def lz4_literal_roundtrip)
qed

lemma lz4_ref_decode_empty: "LZ4_decompress_safe lz4_ref [] cap = None"
  by (simp add: lz4_ref_def lz4_literal_decode_def)

text \<open>
  With the reference codec, decoding what the encoder wrote gives the buffer back exactly
  when the buffer is longer than the bound for one block, 8421520 bytes (and shorter than
  \<open>2\<^sup>3\<^sup>2\<close>, or with such a length modulo \<open>2\<^sup>3\<^sup>2\<close>).
\<close>

lemma lz4_ref_roundtrip:
  "\<exists>t s. lz4_legacy lz4_ref Encode buf = Inr (t, s) \<and>
     lz4_legacy lz4_ref Decode s =
       (if 8421520 < length buf mod 4294967296 then Inr (length buf mod 4294967296, buf)
        else if 0 < length buf mod 4294967296 then Inl BufferOverRead
        else Inl CodecStreamError)"
proof -
  have ok: "\<forall>b \<in> set (legacy_blocks buf). lz4_block_ok lz4_ref b"
    using legacy_blocks_length_le lz4_ref_block_ok by blast
  have cb: "LZ4_COMPRESSBOUND lz4_ref LZ4_LEGACY_BLOCKSIZE < 4294967296"
    by (simp add: lz4_ref_bound)
  from lz4_legacy_decode_encode [OF ok cb] obtain t s where
    enc: "lz4_legacy lz4_ref Encode buf = Inr (t, s)" and
    dec: "lz4_legacy lz4_ref Decode s =
       (if LZ4_COMPRESSBOUND lz4_ref LZ4_LEGACY_BLOCKSIZE < length buf mod 4294967296
        then Inr (length buf mod 4294967296, buf)
        else if 0 < length buf mod 4294967296 then Inl BufferOverRead
        else (case LZ4_decompress_safe lz4_ref [] LZ4_LEGACY_BLOCKSIZE of
                None \<Rightarrow> Inl CodecStreamError
              | Some out \<Rightarrow> Inr ((length buf + length out) mod 4294967296, buf @ out)))"
    by blast
  have "lz4_legacy lz4_ref Decode s =
       (if 8421520 < length buf mod 4294967296 then Inr (length buf mod 4294967296, buf)
        else if 0 < length buf mod 4294967296 then Inl BufferOverRead
        else Inl CodecStreamError)"
    unfolding dec lz4_ref_bound lz4_ref_decode_empty by simp
  with enc show ?thesis by blast
qed

lemma lz4_ref_roundtrip_large:
  "\<exists>t s. lz4_legacy lz4_ref Encode (replicate 9000000 0) = Inr (t, s) \<and>
     lz4_legacy lz4_ref Decode s = Inr (9000000, replicate 9000000 0)"
  using lz4_ref_roundtrip [of "replicate 9000000 0"] by simp


section \<open>Properties of the dispatcher and the stream transcoders\<close>

subsection \<open>The routes of the dispatcher\<close>

lemma as_long_long_sentinel: "as_long_long r \<noteq> Some (Inr (- 1, fd))"
proof (cases r)
  case None
  then show ?thesis by (simp add: as_long_long_def)
next
  case (Some a)
  show ?thesis
  proof (cases a)
    case (Inl e)
    with Some show ?thesis by (simp add: as_long_long_def)
  next
    case (Inr p)
    obtain n out where "p = (n, out)" by (cases p)
    with Some Inr show ?thesis by (simp add: as_long_long_def)
  qed
qed

lemma decomp_sentinel:
  "decomp E t from = Some (Inr (- 1, fd)) \<longleftrightarrow> t = UNKNOWN \<and> fd = []"
  by (cases t) (auto simp: decomp_def as_long_long_sentinel)

lemma comp_sentinel:
  "comp E t from = Some (Inr (- 1, fd)) \<longleftrightarrow> t = UNKNOWN \<and> fd = []"
  by (cases t) (auto simp: comp_def as_long_long_sentinel)

lemma lzma_reaches:
  "as_long_long (lzma L B m buf) =
     (case lzma_init L m of (ret, strm) \<Rightarrow>
        if ret \<noteq> LZMA_OK then Some (Inl CodecInitError)
        else map_option (map_sum id (\<lambda>(pos, tot, fd). (int tot, fd)))
               (lzma_loop L B buf 0 strm 0 []))"
  by (simp add: lzma_def as_long_long_def split: prod.split option.split sum.split)

lemma gzip_reaches:
  "as_long_long (gzip L m buf) =
     (case (case m of
              Decode \<Rightarrow> inflateInit2 L (windowBits OR ZLIB_GZIP)
            | Encode \<Rightarrow> deflateInit2 L 9 Z_DEFLATED (windowBits OR ZLIB_GZIP) memLevel
                          Z_DEFAULT_STRATEGY) of (ret, strm) \<Rightarrow>
        if ret \<noteq> Z_OK then Some (Inl CodecInitError)
        else map_option (map_sum id (\<lambda>(pos, tot, fd). (int tot, fd)))
               (gzip_loop L m buf 0 strm 0 []))"
  by (simp add: gzip_def as_long_long_def split: prod.split option.split sum.split)

lemma bzip2_reaches:
  "as_long_long (bzip2 L m buf) =
     (case (case m of
              Decode \<Rightarrow> BZ2_bzDecompressInit L 0 0
            | Encode \<Rightarrow> BZ2_bzCompressInit L 9 0 0) of (ret, strm) \<Rightarrow>
        if ret \<noteq> BZ_OK then Some (Inl CodecInitError)
        else map_option (\<lambda>(pos, tot, fd). Inr (int tot, fd))
               (bzip2_loop L m buf 0 strm 0 []))"
  by (simp add: bzip2_def as_long_long_def split: prod.split option.split sum.split)

lemma mark_gzip:
  "decomp libs_mark GZIP [0x41] = Some (Inr (2, [0x01, 0x41]))"
  "comp libs_mark GZIP [0x41] = Some (Inr (2, [0x02, 0x41]))"
  by (simp_all add: decomp_def comp_def as_long_long_def libs_mark_def gzip_def gzip_loop.simps
        gzip_inner.simps gzip_window_def zlib_mark_def mark_code_def xwrite_def CHUNK_def
        Z_OK_def Z_STREAM_ERROR_def)

lemma mark_lzma:
  "decomp libs_mark XZ [0x41] = Some (Inr (2, [0x03, 0x41]))"
  "decomp libs_mark LZMA [0x41] = Some (Inr (2, [0x03, 0x41]))"
  "comp libs_mark XZ [0x41] = Some (Inr (2, [0x04, 0x41]))"
  "comp libs_mark LZMA [0x41] = Some (Inr (2, [0x05, 0x41]))"
  by (simp_all add: decomp_def comp_def as_long_long_def libs_mark_def lzma_def lzma_init_def
        lzma_loop.simps lzma_inner.simps lzma_window_def lzma_mark_def mark_code_def xwrite_def
        LZMA_OK_def LZMA_STREAM_END_def)

lemma mark_bzip2:
  "decomp libs_mark BZIP2 [0x41] = Some (Inr (2, [0x06, 0x41]))"
  "comp libs_mark BZIP2 [0x41] = Some (Inr (2, [0x07, 0x41]))"
  by (simp_all add: decomp_def comp_def as_long_long_def libs_mark_def bzip2_def
        bzip2_loop.simps bzip2_inner.simps bzip2_window_def bzlib_mark_def mark_code_def
        xwrite_def CHUNK_def BZ_OK_def)

lemma mark_lz4:
  "decomp libs_mark LZ4 [0x41] = Some (Inr (2, [0x08, 0x41]))"
  "comp libs_mark LZ4 [0x41] = Some (Inr (2, [0x09, 0x41]))"
  by (simp_all add: decomp_def comp_def as_long_long_def libs_mark_def lz4_def
        lz4_loop.simps lz4_inner.simps lz4_window_def lz4f_mark_def lz4_decode_step_def
        lz4_encode_step_def lz4_outCapacity_def xwrite_def blockSize_def)

lemma mark_lz4_legacy:
  "comp libs_mark LZ4_LEGACY [0x41] =
     Some (Inr (10, [0x02, 0x21, 0x4c, 0x18, 2, 0, 0, 0, 0x10, 0x41, 1, 0, 0, 0]))"
  "decomp libs_mark LZ4_LEGACY [0x02, 0x21, 0x4c, 0x18, 2, 0, 0, 0, 0x10, 0x41] =
     Some (Inr (1, [0x41]))"
  by (simp_all add: decomp_def comp_def as_long_long_def libs_mark_def lz4_legacy_def
        lz4_legacy_loop.simps lz4_ref_def xwrite_def le32_def rd32_def lz4_legacy_magic_def
        LZ4_LEGACY_BLOCKSIZE_def lz4_literal_block_def lz4_literal_decode_def)

text \<open>
  C5. Both \<^verbatim>\<open>decomp\<close> and \<^verbatim>\<open>comp\<close> return the sentinel \<open>- 1\<close> for the unknown tag
  and write nothing, and for no other tag. For every other tag they run the transcoder of
  that format in decode mode and in encode mode: gzip on a stream of \<^verbatim>\<open>inflateInit2\<close> or
  \<^verbatim>\<open>deflateInit2\<close>, bzip2 on a stream of \<^verbatim>\<open>BZ2_bzDecompressInit\<close> or
  \<^verbatim>\<open>BZ2_bzCompressInit\<close>, the two LZ4 transcoders in the mode asked for. The one
  asymmetry: xz and legacy LZMA are decoded by the same call, the loop of \<^verbatim>\<open>lzma\<close> on a
  stream of \<^verbatim>\<open>lzma_auto_decoder\<close>, and they are encoded by the same loop on two
  different streams, of \<^verbatim>\<open>lzma_stream_encoder\<close> for xz and of \<^verbatim>\<open>lzma_alone_encoder\<close>
  for legacy LZMA. With the libraries whose streams are marked, each of the twelve routes
  writes the mark of its own initialisation function.
\<close>

theorem dispatcher_routes:
  "(decomp E t from = Some (Inr (- 1, fd)) \<longleftrightarrow> t = UNKNOWN \<and> fd = [])
   \<and> (comp E t from = Some (Inr (- 1, fd)) \<longleftrightarrow> t = UNKNOWN \<and> fd = [])
   \<and> decomp E GZIP from =
       (case inflateInit2 (libz E) (windowBits OR ZLIB_GZIP) of (ret, strm) \<Rightarrow>
          if ret \<noteq> Z_OK then Some (Inl CodecInitError)
          else map_option (map_sum id (\<lambda>(pos, tot, fd). (int tot, fd)))
                 (gzip_loop (libz E) Decode from 0 strm 0 []))
   \<and> comp E GZIP from =
       (case deflateInit2 (libz E) 9 Z_DEFLATED (windowBits OR ZLIB_GZIP) memLevel
               Z_DEFAULT_STRATEGY of (ret, strm) \<Rightarrow>
          if ret \<noteq> Z_OK then Some (Inl CodecInitError)
          else map_option (map_sum id (\<lambda>(pos, tot, fd). (int tot, fd)))
                 (gzip_loop (libz E) Encode from 0 strm 0 []))
   \<and> decomp E XZ from =
       (case lzma_auto_decoder (liblzma E) UINT64_MAX 0 of (ret, strm) \<Rightarrow>
          if ret \<noteq> LZMA_OK then Some (Inl CodecInitError)
          else map_option (map_sum id (\<lambda>(pos, tot, fd). (int tot, fd)))
                 (lzma_loop (liblzma E) (BUFSIZ E) from 0 strm 0 []))
   \<and> decomp E LZMA from = decomp E XZ from
   \<and> comp E XZ from =
       (case lzma_stream_encoder (liblzma E) 9 LZMA_CHECK_CRC32 of (ret, strm) \<Rightarrow>
          if ret \<noteq> LZMA_OK then Some (Inl CodecInitError)
          else map_option (map_sum id (\<lambda>(pos, tot, fd). (int tot, fd)))
                 (lzma_loop (liblzma E) (BUFSIZ E) from 0 strm 0 []))
   \<and> comp E LZMA from =
       (case lzma_alone_encoder (liblzma E) 9 of (ret, strm) \<Rightarrow>
          if ret \<noteq> LZMA_OK then Some (Inl CodecInitError)
          else map_option (map_sum id (\<lambda>(pos, tot, fd). (int tot, fd)))
                 (lzma_loop (liblzma E) (BUFSIZ E) from 0 strm 0 []))
   \<and> decomp E BZIP2 from =
       (case BZ2_bzDecompressInit (libbz2 E) 0 0 of (ret, strm) \<Rightarrow>
          if ret \<noteq> BZ_OK then Some (Inl CodecInitError)
          else map_option (\<lambda>(pos, tot, fd). Inr (int tot, fd))
                 (bzip2_loop (libbz2 E) Decode from 0 strm 0 []))
   \<and> comp E BZIP2 from =
       (case BZ2_bzCompressInit (libbz2 E) 9 0 0 of (ret, strm) \<Rightarrow>
          if ret \<noteq> BZ_OK then Some (Inl CodecInitError)
          else map_option (\<lambda>(pos, tot, fd). Inr (int tot, fd))
                 (bzip2_loop (libbz2 E) Encode from 0 strm 0 []))
   \<and> decomp E LZ4 from =
       map_option (map_sum id (\<lambda>(tot, fd). (int tot, fd))) (lz4 (liblz4f E) Decode from)
   \<and> comp E LZ4 from =
       map_option (map_sum id (\<lambda>(tot, fd). (int tot, fd))) (lz4 (liblz4f E) Encode from)
   \<and> decomp E LZ4_LEGACY from =
       Some (map_sum id (\<lambda>(tot, fd). (int tot, fd)) (lz4_legacy (liblz4 E) Decode from))
   \<and> comp E LZ4_LEGACY from =
       Some (map_sum id (\<lambda>(tot, fd). (int tot, fd)) (lz4_legacy (liblz4 E) Encode from))
   \<and> decomp libs_mark GZIP [0x41] = Some (Inr (2, [0x01, 0x41]))
   \<and> comp libs_mark GZIP [0x41] = Some (Inr (2, [0x02, 0x41]))
   \<and> decomp libs_mark XZ [0x41] = Some (Inr (2, [0x03, 0x41]))
   \<and> decomp libs_mark LZMA [0x41] = Some (Inr (2, [0x03, 0x41]))
   \<and> comp libs_mark XZ [0x41] = Some (Inr (2, [0x04, 0x41]))
   \<and> comp libs_mark LZMA [0x41] = Some (Inr (2, [0x05, 0x41]))
   \<and> decomp libs_mark BZIP2 [0x41] = Some (Inr (2, [0x06, 0x41]))
   \<and> comp libs_mark BZIP2 [0x41] = Some (Inr (2, [0x07, 0x41]))
   \<and> decomp libs_mark LZ4 [0x41] = Some (Inr (2, [0x08, 0x41]))
   \<and> comp libs_mark LZ4 [0x41] = Some (Inr (2, [0x09, 0x41]))
   \<and> comp libs_mark LZ4_LEGACY [0x41] =
       Some (Inr (10, [0x02, 0x21, 0x4c, 0x18, 2, 0, 0, 0, 0x10, 0x41, 1, 0, 0, 0]))
   \<and> decomp libs_mark LZ4_LEGACY [0x02, 0x21, 0x4c, 0x18, 2, 0, 0, 0, 0x10, 0x41] =
       Some (Inr (1, [0x41]))"
proof -
  have g1: "decomp E GZIP from =
       (case inflateInit2 (libz E) (windowBits OR ZLIB_GZIP) of (ret, strm) \<Rightarrow>
          if ret \<noteq> Z_OK then Some (Inl CodecInitError)
          else map_option (map_sum id (\<lambda>(pos, tot, fd). (int tot, fd)))
                 (gzip_loop (libz E) Decode from 0 strm 0 []))"
    using gzip_reaches [of "libz E" Decode "from"] by (simp add: decomp_def)
  have g2: "comp E GZIP from =
       (case deflateInit2 (libz E) 9 Z_DEFLATED (windowBits OR ZLIB_GZIP) memLevel
               Z_DEFAULT_STRATEGY of (ret, strm) \<Rightarrow>
          if ret \<noteq> Z_OK then Some (Inl CodecInitError)
          else map_option (map_sum id (\<lambda>(pos, tot, fd). (int tot, fd)))
                 (gzip_loop (libz E) Encode from 0 strm 0 []))"
    using gzip_reaches [of "libz E" Encode "from"] by (simp add: comp_def)
  have x1: "decomp E XZ from =
       (case lzma_auto_decoder (liblzma E) UINT64_MAX 0 of (ret, strm) \<Rightarrow>
          if ret \<noteq> LZMA_OK then Some (Inl CodecInitError)
          else map_option (map_sum id (\<lambda>(pos, tot, fd). (int tot, fd)))
                 (lzma_loop (liblzma E) (BUFSIZ E) from 0 strm 0 []))"
    using lzma_reaches [of "liblzma E" "BUFSIZ E" LzmaDecode "from"]
    by (simp add: decomp_def lzma_init_def)
  have x2: "decomp E LZMA from = decomp E XZ from"
    by (simp add: decomp_def)
  have x3: "comp E XZ from =
       (case lzma_stream_encoder (liblzma E) 9 LZMA_CHECK_CRC32 of (ret, strm) \<Rightarrow>
          if ret \<noteq> LZMA_OK then Some (Inl CodecInitError)
          else map_option (map_sum id (\<lambda>(pos, tot, fd). (int tot, fd)))
                 (lzma_loop (liblzma E) (BUFSIZ E) from 0 strm 0 []))"
    using lzma_reaches [of "liblzma E" "BUFSIZ E" XzEncode "from"]
    by (simp add: comp_def lzma_init_def)
  have x4: "comp E LZMA from =
       (case lzma_alone_encoder (liblzma E) 9 of (ret, strm) \<Rightarrow>
          if ret \<noteq> LZMA_OK then Some (Inl CodecInitError)
          else map_option (map_sum id (\<lambda>(pos, tot, fd). (int tot, fd)))
                 (lzma_loop (liblzma E) (BUFSIZ E) from 0 strm 0 []))"
    using lzma_reaches [of "liblzma E" "BUFSIZ E" LzmaEncode "from"]
    by (simp add: comp_def lzma_init_def)
  have b1: "decomp E BZIP2 from =
       (case BZ2_bzDecompressInit (libbz2 E) 0 0 of (ret, strm) \<Rightarrow>
          if ret \<noteq> BZ_OK then Some (Inl CodecInitError)
          else map_option (\<lambda>(pos, tot, fd). Inr (int tot, fd))
                 (bzip2_loop (libbz2 E) Decode from 0 strm 0 []))"
    using bzip2_reaches [of "libbz2 E" Decode "from"] by (simp add: decomp_def)
  have b2: "comp E BZIP2 from =
       (case BZ2_bzCompressInit (libbz2 E) 9 0 0 of (ret, strm) \<Rightarrow>
          if ret \<noteq> BZ_OK then Some (Inl CodecInitError)
          else map_option (\<lambda>(pos, tot, fd). Inr (int tot, fd))
                 (bzip2_loop (libbz2 E) Encode from 0 strm 0 []))"
    using bzip2_reaches [of "libbz2 E" Encode "from"] by (simp add: comp_def)
  have l1: "decomp E LZ4 from =
       map_option (map_sum id (\<lambda>(tot, fd). (int tot, fd))) (lz4 (liblz4f E) Decode from)"
    and l2: "comp E LZ4 from =
       map_option (map_sum id (\<lambda>(tot, fd). (int tot, fd))) (lz4 (liblz4f E) Encode from)"
    and l3: "decomp E LZ4_LEGACY from =
       Some (map_sum id (\<lambda>(tot, fd). (int tot, fd)) (lz4_legacy (liblz4 E) Decode from))"
    and l4: "comp E LZ4_LEGACY from =
       Some (map_sum id (\<lambda>(tot, fd). (int tot, fd)) (lz4_legacy (liblz4 E) Encode from))"
    by (simp_all add: decomp_def comp_def as_long_long_def)
  note s1 = decomp_sentinel [of E t "from" fd] and s2 = comp_sentinel [of E t "from" fd]
  show ?thesis
    by (intro conjI)
       (rule s1, rule s2, rule g1, rule g2, rule x1, rule x2, rule x3, rule x4, rule b1,
        rule b2, rule l1, rule l2, rule l3, rule l4, rule mark_gzip, rule mark_gzip,
        rule mark_lzma, rule mark_lzma, rule mark_lzma, rule mark_lzma, rule mark_bzip2,
        rule mark_bzip2, rule mark_lz4, rule mark_lz4, rule mark_lz4_legacy,
        rule mark_lz4_legacy)
qed

subsection \<open>The cursor of the outer loops\<close>

lemma gzip_loop_pos:
  "gzip_loop L m buf pos strm tot fd = Some (Inr (pos', tot', fd')) \<Longrightarrow>
   pos \<le> length buf \<Longrightarrow> pos' = length buf"
proof (induction "length buf - pos" arbitrary: pos strm tot fd rule: less_induct)
  case less
  show ?case
  proof (cases "length buf \<le> pos + CHUNK")
    case True
    with less.prems show ?thesis
      by (subst (asm) gzip_loop.simps)
         (auto simp: Let_def gzip_window_def split: option.splits sum.splits)
  next
    case False
    then have lt: "length buf - (pos + CHUNK) < length buf - pos"
      by (simp add: CHUNK_def)
    from False less.prems(1) obtain strm1 tot1 fd1 where
      "gzip_loop L m buf (pos + CHUNK) strm1 tot1 fd1 = Some (Inr (pos', tot', fd'))"
      by (subst (asm) gzip_loop.simps)
         (auto simp: Let_def gzip_window_def split: option.splits sum.splits)
    from less.hyps [OF lt this] False show ?thesis by simp
  qed
qed

lemma bzip2_loop_pos:
  "bzip2_loop L m buf pos strm tot fd = Some (pos', tot', fd') \<Longrightarrow>
   pos \<le> length buf \<Longrightarrow> pos' = length buf"
proof (induction "length buf - pos" arbitrary: pos strm tot fd rule: less_induct)
  case less
  show ?case
  proof (cases "length buf \<le> pos + CHUNK")
    case True
    with less.prems show ?thesis
      by (subst (asm) bzip2_loop.simps)
         (auto simp: Let_def bzip2_window_def split: option.splits)
  next
    case False
    then have lt: "length buf - (pos + CHUNK) < length buf - pos"
      by (simp add: CHUNK_def)
    from False less.prems(1) obtain strm1 tot1 fd1 where
      "bzip2_loop L m buf (pos + CHUNK) strm1 tot1 fd1 = Some (pos', tot', fd')"
      by (subst (asm) bzip2_loop.simps)
         (auto simp: Let_def bzip2_window_def split: option.splits)
    from less.hyps [OF lt this] False show ?thesis by simp
  qed
qed

lemma lzma_loop_pos:
  assumes run: "lzma_loop L B buf pos strm tot fd = Some r"
  shows "pos \<le> length buf \<longrightarrow> (\<forall>p t f. r = Inr (p, t, f) \<longrightarrow> p = length buf)"
proof (rule lzma_loop.raw_induct
    [where P = "\<lambda>L B buf pos strm tot fd r.
       pos \<le> length buf \<longrightarrow> (\<forall>p t f. r = Inr (p, t, f) \<longrightarrow> p = length buf)", OF _ run])
  fix loop :: "'a lzmalib \<Rightarrow> nat \<Rightarrow> byte list \<Rightarrow> nat \<Rightarrow> 'a \<Rightarrow> nat \<Rightarrow> byte list
      \<Rightarrow> (error + nat \<times> nat \<times> byte list) option"
  fix L B buf pos strm tot fd r
  assume IH: "\<And>L B buf pos strm tot fd r. loop L B buf pos strm tot fd = Some r \<Longrightarrow>
      pos \<le> length buf \<longrightarrow> (\<forall>p t f. r = Inr (p, t, f) \<longrightarrow> p = length buf)"
  assume body: "(let size = length buf;
          (avail_in, action) = lzma_window B pos size;
          pos1 = pos + avail_in
      in case lzma_inner L B action strm (take avail_in (drop pos buf)) tot fd of
           None \<Rightarrow> None
         | Some (ret, strm1, tot1, fd1) \<Rightarrow>
             if ret \<noteq> LZMA_OK \<and> ret \<noteq> LZMA_STREAM_END then Some (Inl CodecStreamError)
             else if pos1 < size then loop L B buf pos1 strm1 tot1 fd1
             else Some (Inr (pos1, tot1, fd1))) = Some r"
  show "pos \<le> length buf \<longrightarrow> (\<forall>p t f. r = Inr (p, t, f) \<longrightarrow> p = length buf)"
  proof (cases "length buf \<le> pos + B")
    case True
    with body show ?thesis
      by (auto simp: Let_def lzma_window_def split: option.splits if_splits)
  next
    case False
    with body have "r = Inl CodecStreamError \<or>
        (\<exists>strm1 tot1 fd1. loop L B buf (pos + B) strm1 tot1 fd1 = Some r)"
      by (auto simp: Let_def lzma_window_def split: option.splits if_splits)
    then show ?thesis
    proof
      assume "r = Inl CodecStreamError"
      then show ?thesis by simp
    next
      assume "\<exists>strm1 tot1 fd1. loop L B buf (pos + B) strm1 tot1 fd1 = Some r"
      then obtain strm1 tot1 fd1 where "loop L B buf (pos + B) strm1 tot1 fd1 = Some r"
        by blast
      from IH [OF this] False show ?thesis by simp
    qed
  qed
qed

lemma lz4_inner_pos:
  assumes run: "lz4_inner step ctx buf cap pos avail_in tot fd = Some r"
  shows "(\<forall>c k src c1 ret out rd. step c k src = Inr (c1, ret, out, rd) \<longrightarrow> rd \<le> length src) \<longrightarrow>
         (\<forall>ctx1 ret pos1 tot1 fd1. r = Inr (ctx1, ret, pos1, tot1, fd1) \<longrightarrow>
           pos1 \<le> pos + avail_in)"
proof (rule lz4_inner.raw_induct
    [where P = "\<lambda>step ctx buf cap pos avail_in tot fd r.
       (\<forall>c k src c1 ret out rd. step c k src = Inr (c1, ret, out, rd) \<longrightarrow> rd \<le> length src) \<longrightarrow>
       (\<forall>ctx1 ret pos1 tot1 fd1. r = Inr (ctx1, ret, pos1, tot1, fd1) \<longrightarrow>
           pos1 \<le> pos + avail_in)", OF _ run])
  fix inner :: "('a \<Rightarrow> nat \<Rightarrow> byte list \<Rightarrow> nat + ('a \<times> nat \<times> byte list \<times> nat)) \<Rightarrow> 'a \<Rightarrow> byte list
    \<Rightarrow> nat \<Rightarrow> nat \<Rightarrow> nat \<Rightarrow> nat \<Rightarrow> byte list
    \<Rightarrow> (error + ('a \<times> nat \<times> nat \<times> nat \<times> byte list)) option"
  fix step ctx buf cap pos avail_in tot fd r
  assume IH: "\<And>step ctx buf cap pos avail_in tot fd r.
      inner step ctx buf cap pos avail_in tot fd = Some r \<Longrightarrow>
      (\<forall>c k src c1 ret out rd. step c k src = Inr (c1, ret, out, rd) \<longrightarrow> rd \<le> length src) \<longrightarrow>
      (\<forall>ctx1 ret pos1 tot1 fd1. r = Inr (ctx1, ret, pos1, tot1, fd1) \<longrightarrow>
           pos1 \<le> pos + avail_in)"
  assume body: "(case step ctx cap (take avail_in (drop pos buf)) of
        Inl e \<Rightarrow> Some (Inl CodecStreamError)
      | Inr (ctx1, ret, out, rd) \<Rightarrow>
          let (fd1, n1) = xwrite fd out;
              tot1 = tot + n1;
              pos1 = pos + rd;
              avail1 = avail_in - rd
          in if avail1 \<noteq> 0 \<and> ret \<noteq> 0
             then inner step ctx1 buf cap pos1 avail1 tot1 fd1
             else Some (Inr (ctx1, ret, pos1, tot1, fd1))) = Some r"
  show "(\<forall>c k src c1 ret out rd. step c k src = Inr (c1, ret, out, rd) \<longrightarrow> rd \<le> length src) \<longrightarrow>
        (\<forall>ctx1 ret pos1 tot1 fd1. r = Inr (ctx1, ret, pos1, tot1, fd1) \<longrightarrow>
           pos1 \<le> pos + avail_in)"
  proof
    assume within: "\<forall>c k src c1 ret out rd. step c k src = Inr (c1, ret, out, rd) \<longrightarrow> rd \<le> length src"
    show "\<forall>ctx1 ret pos1 tot1 fd1. r = Inr (ctx1, ret, pos1, tot1, fd1) \<longrightarrow>
           pos1 \<le> pos + avail_in"
    proof (cases "step ctx cap (take avail_in (drop pos buf))")
      case (Inl e)
      with body show ?thesis by auto
    next
      case (Inr x)
      obtain ctx1 ret out rd where x: "x = (ctx1, ret, out, rd)" by (cases x) auto
      from within Inr x have "rd \<le> length (take avail_in (drop pos buf))" by blast
      then have rd: "rd \<le> avail_in" by simp
      show ?thesis
      proof (cases "avail_in - rd \<noteq> 0 \<and> ret \<noteq> 0")
        case True
        with body Inr x have
          "inner step ctx1 buf cap (pos + rd) (avail_in - rd) (tot + length out) (fd @ out) = Some r"
          by (simp add: xwrite_def)
        from IH [OF this] within rd show ?thesis by auto
      next
        case False
        with body Inr x have "r = Inr (ctx1, ret, pos + rd, tot + length out, fd @ out)"
          by (auto simp add: xwrite_def)
        with rd show ?thesis by simp
      qed
    qed
  qed
qed

lemma lz4_window_le: "pos \<le> sz \<Longrightarrow> pos + lz4_window pos sz \<le> sz"
  by (simp add: lz4_window_def)

lemma lz4_loop_pos:
  assumes run: "lz4_loop step ctx buf cap pos tot fd = Some r"
  shows "(\<forall>c k src c1 ret out rd. step c k src = Inr (c1, ret, out, rd) \<longrightarrow> rd \<le> length src) \<longrightarrow>
         pos \<le> length buf \<longrightarrow>
         (\<forall>ctx1 pos1 tot1 fd1. r = Inr (ctx1, pos1, tot1, fd1) \<longrightarrow> pos1 \<le> length buf)"
proof (rule lz4_loop.raw_induct
    [where P = "\<lambda>step ctx buf cap pos tot fd r.
       (\<forall>c k src c1 ret out rd. step c k src = Inr (c1, ret, out, rd) \<longrightarrow> rd \<le> length src) \<longrightarrow>
       pos \<le> length buf \<longrightarrow>
       (\<forall>ctx1 pos1 tot1 fd1. r = Inr (ctx1, pos1, tot1, fd1) \<longrightarrow> pos1 \<le> length buf)",
     OF _ run])
  fix loop :: "('a \<Rightarrow> nat \<Rightarrow> byte list \<Rightarrow> nat + ('a \<times> nat \<times> byte list \<times> nat)) \<Rightarrow> 'a \<Rightarrow> byte list
    \<Rightarrow> nat \<Rightarrow> nat \<Rightarrow> nat \<Rightarrow> byte list
    \<Rightarrow> (error + ('a \<times> nat \<times> nat \<times> byte list)) option"
  fix step ctx buf cap pos tot fd r
  assume IH: "\<And>step ctx buf cap pos tot fd r.
      loop step ctx buf cap pos tot fd = Some r \<Longrightarrow>
      (\<forall>c k src c1 ret out rd. step c k src = Inr (c1, ret, out, rd) \<longrightarrow> rd \<le> length src) \<longrightarrow>
      pos \<le> length buf \<longrightarrow>
      (\<forall>ctx1 pos1 tot1 fd1. r = Inr (ctx1, pos1, tot1, fd1) \<longrightarrow> pos1 \<le> length buf)"
  assume body: "(let size = length buf;
          avail_in = lz4_window pos size
      in case lz4_inner step ctx buf cap pos avail_in tot fd of
           None \<Rightarrow> None
         | Some (Inl e) \<Rightarrow> Some (Inl e)
         | Some (Inr (ctx1, ret, pos1, tot1, fd1)) \<Rightarrow>
             if pos1 < size \<and> ret \<noteq> 0
             then loop step ctx1 buf cap pos1 tot1 fd1
             else Some (Inr (ctx1, pos1, tot1, fd1))) = Some r"
  show "(\<forall>c k src c1 ret out rd. step c k src = Inr (c1, ret, out, rd) \<longrightarrow> rd \<le> length src) \<longrightarrow>
        pos \<le> length buf \<longrightarrow>
        (\<forall>ctx1 pos1 tot1 fd1. r = Inr (ctx1, pos1, tot1, fd1) \<longrightarrow> pos1 \<le> length buf)"
  proof (intro impI)
    assume within: "\<forall>c k src c1 ret out rd. step c k src = Inr (c1, ret, out, rd) \<longrightarrow> rd \<le> length src"
    assume pos: "pos \<le> length buf"
    from body obtain ri where
      inner: "lz4_inner step ctx buf cap pos (lz4_window pos (length buf)) tot fd = Some ri"
      by (auto simp: Let_def split: option.splits)
    show "\<forall>ctx1 pos1 tot1 fd1. r = Inr (ctx1, pos1, tot1, fd1) \<longrightarrow> pos1 \<le> length buf"
    proof (cases ri)
      case (Inl e)
      with body inner show ?thesis by (auto simp: Let_def)
    next
      case (Inr x)
      obtain ctx1 ret pos1 tot1 fd1 where x: "x = (ctx1, ret, pos1, tot1, fd1)"
        by (cases x) auto
      from lz4_inner_pos [OF inner] within Inr x
      have "pos1 \<le> pos + lz4_window pos (length buf)" by blast
      with lz4_window_le [OF pos] have p1: "pos1 \<le> length buf" by simp
      show ?thesis
      proof (cases "pos1 < length buf \<and> ret \<noteq> 0")
        case True
        with body inner Inr x have "loop step ctx1 buf cap pos1 tot1 fd1 = Some r"
          by (simp add: Let_def)
        from IH [OF this] within p1 show ?thesis by blast
      next
        case False
        with body inner Inr x have "r = Inr (ctx1, pos1, tot1, fd1)"
          by (auto simp: Let_def)
        with p1 show ?thesis by simp
      qed
    qed
  qed
qed

lemma lz4_decode_step_within:
  "lz4_decode_step L c k src = Inr (c1, ret, out, rd) \<Longrightarrow> rd \<le> length src"
  by (auto simp: lz4_decode_step_def split: sum.splits)

lemma lz4_encode_step_within:
  "lz4_encode_step L c k src = Inr (c1, ret, out, rd) \<Longrightarrow> rd \<le> length src"
  by (auto simp: lz4_encode_step_def split: sum.splits)

text \<open>
  C6, as amended. Let the cursor be within the input. Then the gzip, xz/LZMA and bzip2 loops
  and the LZ4-legacy encoding loop, when they return, have the cursor at the input length
  exactly, and every window they take ends within the input. The LZ4 frame loops keep the
  cursor within the input too, but also end as soon as the library reports the frame
  complete (\<open>ret = 0\<close>), wherever the cursor is. The LZ4-legacy decoding loop also ends
  at a block length above the bound, wherever the cursor is.
\<close>

theorem transcoder_cursor:
  assumes pos: "pos \<le> length buf"
  shows "(gzip_loop Z m buf pos zs tot fd = Some (Inr (p, t, f)) \<longrightarrow> p = length buf)
   \<and> (lzma_loop X B buf pos xs tot fd = Some (Inr (p, t, f)) \<longrightarrow> p = length buf)
   \<and> (bzip2_loop Y m buf pos ys tot fd = Some (p, t, f) \<longrightarrow> p = length buf)
   \<and> (lz4_loop (lz4_decode_step F) dctx buf cap pos tot fd = Some (Inr (dctx1, p, t, f))
        \<longrightarrow> p \<le> length buf)
   \<and> (lz4_loop (lz4_encode_step F) cctx buf cap pos tot fd = Some (Inr (cctx1, p, t, f))
        \<longrightarrow> p \<le> length buf)
   \<and> (lz4_legacy_loop L Encode buf pos tot32 fd = Inr (p, t32, f) \<longrightarrow> p = length buf)
   \<and> pos + fst (gzip_window pos (length buf)) \<le> length buf
   \<and> pos + fst (lzma_window B pos (length buf)) \<le> length buf
   \<and> pos + fst (bzip2_window pos (length buf)) \<le> length buf
   \<and> pos + lz4_window pos (length buf) \<le> length buf
   \<and> (lz4_inner step ctx buf cap pos (lz4_window pos (length buf)) tot fd
          = Some (Inr (ctx1, 0, p, t, f))
        \<longrightarrow> lz4_loop step ctx buf cap pos tot fd = Some (Inr (ctx1, p, t, f)))
   \<and> (pos + 4 \<le> length buf
          \<and> LZ4_COMPRESSBOUND L LZ4_LEGACY_BLOCKSIZE < unat (rd32 (take 4 (drop pos buf)))
        \<longrightarrow> lz4_legacy_loop L Decode buf pos tot32 fd = Inr (pos + 4, tot32, fd))"
proof -
  have 1: "gzip_loop Z m buf pos zs tot fd = Some (Inr (p, t, f)) \<longrightarrow> p = length buf"
    using gzip_loop_pos [of Z m buf pos zs tot fd p t f] pos by blast
  have 2: "lzma_loop X B buf pos xs tot fd = Some (Inr (p, t, f)) \<longrightarrow> p = length buf"
    using lzma_loop_pos [of X B buf pos xs tot fd "Inr (p, t, f)"] pos by blast
  have 3: "bzip2_loop Y m buf pos ys tot fd = Some (p, t, f) \<longrightarrow> p = length buf"
    using bzip2_loop_pos [of Y m buf pos ys tot fd p t f] pos by blast
  have 4: "lz4_loop (lz4_decode_step F) dctx buf cap pos tot fd = Some (Inr (dctx1, p, t, f))
        \<longrightarrow> p \<le> length buf"
    using lz4_loop_pos [of "lz4_decode_step F" dctx buf cap pos tot fd "Inr (dctx1, p, t, f)"]
      lz4_decode_step_within [of F] pos by blast
  have 5: "lz4_loop (lz4_encode_step F) cctx buf cap pos tot fd = Some (Inr (cctx1, p, t, f))
        \<longrightarrow> p \<le> length buf"
    using lz4_loop_pos [of "lz4_encode_step F" cctx buf cap pos tot fd "Inr (cctx1, p, t, f)"]
      lz4_encode_step_within [of F] pos by blast
  have 6: "lz4_legacy_loop L Encode buf pos tot32 fd = Inr (p, t32, f) \<longrightarrow> p = length buf"
    using pos by (simp add: enc_loop_eq max_def split: if_splits)
  have 7: "pos + fst (gzip_window pos (length buf)) \<le> length buf"
    using pos by (simp add: gzip_window_def)
  have 8: "pos + fst (lzma_window B pos (length buf)) \<le> length buf"
    using pos by (simp add: lzma_window_def)
  have 9: "pos + fst (bzip2_window pos (length buf)) \<le> length buf"
    using pos by (simp add: bzip2_window_def)
  have 10: "lz4_inner step ctx buf cap pos (lz4_window pos (length buf)) tot fd
          = Some (Inr (ctx1, 0, p, t, f))
        \<longrightarrow> lz4_loop step ctx buf cap pos tot fd = Some (Inr (ctx1, p, t, f))"
    by (subst lz4_loop.simps) (simp add: Let_def)
  have 11: "pos + 4 \<le> length buf
          \<and> LZ4_COMPRESSBOUND L LZ4_LEGACY_BLOCKSIZE < unat (rd32 (take 4 (drop pos buf)))
        \<longrightarrow> lz4_legacy_loop L Decode buf pos tot32 fd = Inr (pos + 4, tot32, fd)"
    by (subst dec_step) (simp add: Let_def)
  from 1 2 3 4 5 6 7 8 9 10 11 lz4_window_le [OF pos] show ?thesis by blast
qed

theorem transcoder_cursor_witness:
  "(0 :: nat) \<le> length [1, 2, 3 :: byte]
   \<and> gzip_loop zlib_ref Encode [1, 2, 3] 0 () 0 [] = Some (Inr (3, 3, [1, 2, 3]))
   \<and> (3 :: nat) = length [1, 2, 3 :: byte]
   \<and> 0 + fst (gzip_window 0 (length [1, 2, 3 :: byte])) \<le> length [1, 2, 3 :: byte]"
proof -
  have pos: "(0 :: nat) \<le> length [1, 2, 3 :: byte]" by simp
  have run: "gzip_loop zlib_ref Encode [1, 2, 3] 0 () 0 [] = Some (Inr (3, 3, [1, 2, 3]))"
    by (simp add: gzip_loop.simps gzip_inner.simps gzip_window_def zlib_ref_def
          stored_code_def xwrite_def CHUNK_def Z_STREAM_ERROR_def)
  from transcoder_cursor [where ?Z = zlib_ref and ?m = Encode and ?zs = "()" and ?tot = 0
      and ?fd = "[]" and ?p = 3 and ?t = 3 and ?f = "[1, 2, 3]", OF pos] run pos
  show ?thesis by (simp add: gzip_window_def CHUNK_def)
qed

text \<open>
  C6 as stated fails in the LZ4-legacy decoding loop, by its explicit exit: on the twelve
  bytes below the first block length is \<^verbatim>\<open>FF FF FF FF\<close>, above the bound, and the loop
  ends with the cursor at 8 of 12.
\<close>

theorem lz4_legacy_decode_early_exit:
  "lz4_legacy_loop lz4_ref Decode
     [0x02, 0x21, 0x4c, 0x18, 0xff, 0xff, 0xff, 0xff, 0, 0, 0, 0] 4 0 [] = Inr (8, 0, [])
   \<and> (8 :: nat) < length [0x02, 0x21, 0x4c, 0x18, 0xff, 0xff, 0xff, 0xff, 0, 0, 0, 0 :: byte]"
  by (simp add: lz4_legacy_loop.simps lz4_ref_def rd32_def LZ4_LEGACY_BLOCKSIZE_def)

subsection \<open>The windows\<close>



lemma windows_ne [simp]: "windows n buf \<noteq> []"
  by (subst windows.simps) simp




























subsection \<open>The value returned by the library transcoders\<close>

lemma gzip_inner_total:
  assumes run: "gzip_inner L m flush strm next_in tot fd = Some r"
  shows "\<forall>strm1 tot1 fd1. r = Inr (strm1, tot1, fd1) \<longrightarrow>
           (\<exists>w. fd1 = fd @ w \<and> tot1 = tot + length w)"
proof (rule gzip_inner.raw_induct
    [where P = "\<lambda>L m flush strm next_in tot fd r.
       \<forall>strm1 tot1 fd1. r = Inr (strm1, tot1, fd1) \<longrightarrow>
           (\<exists>w. fd1 = fd @ w \<and> tot1 = tot + length w)", OF _ run])
  fix inner :: "'a zlib \<Rightarrow> mode \<Rightarrow> int \<Rightarrow> 'a \<Rightarrow> byte list \<Rightarrow> nat \<Rightarrow> byte list
    \<Rightarrow> (error + ('a \<times> nat \<times> byte list)) option"
  fix L m flush strm next_in tot fd r
  assume IH: "\<And>L m flush strm next_in tot fd r.
      inner L m flush strm next_in tot fd = Some r \<Longrightarrow>
      \<forall>strm1 tot1 fd1. r = Inr (strm1, tot1, fd1) \<longrightarrow>
           (\<exists>w. fd1 = fd @ w \<and> tot1 = tot + length w)"
  assume body: "(let (ret, strm1, used, produced) =
            (case m of
               Decode \<Rightarrow> inflate L strm next_in CHUNK flush
             | Encode \<Rightarrow> deflate L strm next_in CHUNK flush);
          out = take CHUNK produced
      in if ret = Z_STREAM_ERROR then Some (Inl CodecStreamError)
         else
           let have = length out;
               (fd1, n1) = xwrite fd out;
               tot1 = tot + n1
           in if have = CHUNK then inner L m flush strm1 (drop used next_in) tot1 fd1
              else Some (Inr (strm1, tot1, fd1))) = Some r"
  obtain ret strm1 used produced where call:
    "(case m of Decode \<Rightarrow> inflate L strm next_in CHUNK flush
              | Encode \<Rightarrow> deflate L strm next_in CHUNK flush) = (ret, strm1, used, produced)"
    by (metis prod_cases4)
  define out where "out = take CHUNK produced"
  have body': "(if ret = Z_STREAM_ERROR then Some (Inl CodecStreamError)
      else if length out = CHUNK
        then inner L m flush strm1 (drop used next_in) (tot + length out) (fd @ out)
        else Some (Inr (strm1, tot + length out, fd @ out))) = Some r"
    using body unfolding out_def by (simp only: call Let_def xwrite_def prod.case)
  show "\<forall>strm1 tot1 fd1. r = Inr (strm1, tot1, fd1) \<longrightarrow>
           (\<exists>w. fd1 = fd @ w \<and> tot1 = tot + length w)"
  proof (cases "ret \<noteq> Z_STREAM_ERROR \<and> length out = CHUNK")
    case True
    with body' have
      "inner L m flush strm1 (drop used next_in) (tot + length out) (fd @ out) = Some r"
      by simp
    from IH [OF this] show ?thesis
      by (metis append.assoc length_append add.assoc)
  next
    case False
    with body' have "r = Inl CodecStreamError \<or> r = Inr (strm1, tot + length out, fd @ out)"
      by (auto split: if_splits)
    then show ?thesis by auto
  qed
qed

lemma gzip_loop_total:
  "gzip_loop L m buf pos strm tot fd = Some (Inr (pos', tot', fd')) \<Longrightarrow>
   \<exists>w. fd' = fd @ w \<and> tot' = tot + length w"
proof (induction "length buf - pos" arbitrary: pos strm tot fd rule: less_induct)
  case less
  obtain avail_in flush where win: "gzip_window pos (length buf) = (avail_in, flush)"
    by (cases "gzip_window pos (length buf)") auto
  from less.prems win obtain ri where
    inner: "gzip_inner L m flush strm (take avail_in (drop pos buf)) tot fd = Some ri"
    by (subst (asm) gzip_loop.simps) (auto simp: Let_def split: option.splits)
  from less.prems win inner obtain strm1 tot1 fd1 where ri: "ri = Inr (strm1, tot1, fd1)"
    by (subst (asm) gzip_loop.simps) (auto simp: Let_def split: sum.splits)
  from gzip_inner_total [OF inner] ri obtain w where
    w: "fd1 = fd @ w" "tot1 = tot + length w" by blast
  show ?case
  proof (cases "pos + avail_in < length buf")
    case True
    with less.prems win inner ri have
      rec: "gzip_loop L m buf (pos + avail_in) strm1 tot1 fd1 = Some (Inr (pos', tot', fd'))"
      by (subst (asm) gzip_loop.simps) (simp add: Let_def)
    from True win have "avail_in = CHUNK"
      by (auto simp: gzip_window_def split: if_splits)
    then have "length buf - (pos + avail_in) < length buf - pos"
      using True by (simp add: CHUNK_def)
    from less.hyps [OF this rec] w show ?thesis
      by (metis append.assoc length_append add.assoc)
  next
    case False
    with less.prems win inner ri have "tot' = tot1" "fd' = fd1"
      by (subst (asm) gzip_loop.simps, simp add: Let_def)+
    with w show ?thesis by blast
  qed
qed

lemma gzip_total:
  "gzip L m buf = Some (Inr (t, out)) \<Longrightarrow> t = length out"
proof -
  assume run: "gzip L m buf = Some (Inr (t, out))"
  then obtain strm pos where "gzip_loop L m buf 0 strm 0 [] = Some (Inr (pos, t, out))"
    by (auto simp: gzip_def Let_def split: prod.splits if_splits option.splits sum.splits)
  from gzip_loop_total [OF this] show ?thesis by simp
qed


lemma bzip2_inner_total:
  assumes run: "bzip2_inner L m action strm next_in tot fd = Some r"
  shows "\<exists>w. snd (snd r) = fd @ w \<and> fst (snd r) = tot + length w"
proof (rule bzip2_inner.raw_induct
    [where P = "\<lambda>L m action strm next_in tot fd r.
       \<exists>w. snd (snd r) = fd @ w \<and> fst (snd r) = tot + length w", OF _ run])
  fix inner :: "'a bzlib \<Rightarrow> mode \<Rightarrow> int \<Rightarrow> 'a \<Rightarrow> byte list \<Rightarrow> nat \<Rightarrow> byte list
    \<Rightarrow> ('a \<times> nat \<times> byte list) option"
  fix L m action strm next_in tot fd r
  assume IH: "\<And>L m action strm next_in tot fd r.
      inner L m action strm next_in tot fd = Some r \<Longrightarrow>
      \<exists>w. snd (snd r) = fd @ w \<and> fst (snd r) = tot + length w"
  assume body: "(let (ret, strm1, used, produced) =
            (case m of
               Decode \<Rightarrow> BZ2_bzDecompress L strm next_in CHUNK
             | Encode \<Rightarrow> BZ2_bzCompress L strm next_in CHUNK action);
          out = take CHUNK produced;
          have = length out;
          (fd1, n1) = xwrite fd out;
          tot1 = tot + n1
      in if have = CHUNK then inner L m action strm1 (drop used next_in) tot1 fd1
         else Some (strm1, tot1, fd1)) = Some r"
  obtain ret strm1 used produced where call:
    "(case m of Decode \<Rightarrow> BZ2_bzDecompress L strm next_in CHUNK
              | Encode \<Rightarrow> BZ2_bzCompress L strm next_in CHUNK action)
       = (ret, strm1, used, produced)"
    by (metis prod_cases4)
  define out where "out = take CHUNK produced"
  have body': "(if length out = CHUNK
        then inner L m action strm1 (drop used next_in) (tot + length out) (fd @ out)
        else Some (strm1, tot + length out, fd @ out)) = Some r"
    using body unfolding out_def by (simp only: call Let_def xwrite_def prod.case)
  show "\<exists>w. snd (snd r) = fd @ w \<and> fst (snd r) = tot + length w"
  proof (cases "length out = CHUNK")
    case True
    with body' have
      "inner L m action strm1 (drop used next_in) (tot + length out) (fd @ out) = Some r"
      by simp
    from IH [OF this] show ?thesis
      by (metis append.assoc length_append add.assoc)
  next
    case False
    with body' have "r = (strm1, tot + length out, fd @ out)" by simp
    then show ?thesis by simp
  qed
qed

lemma bzip2_loop_total:
  "bzip2_loop L m buf pos strm tot fd = Some (pos', tot', fd') \<Longrightarrow>
   \<exists>w. fd' = fd @ w \<and> tot' = tot + length w"
proof (induction "length buf - pos" arbitrary: pos strm tot fd rule: less_induct)
  case less
  obtain avail_in action where win: "bzip2_window pos (length buf) = (avail_in, action)"
    by (cases "bzip2_window pos (length buf)") auto
  from less.prems win obtain ri where
    inner: "bzip2_inner L m action strm (take avail_in (drop pos buf)) tot fd = Some ri"
    by (subst (asm) bzip2_loop.simps) (auto simp: Let_def split: option.splits)
  obtain strm1 tot1 fd1 where ri: "ri = (strm1, tot1, fd1)" by (cases ri) auto
  from bzip2_inner_total [OF inner] ri obtain w where
    w: "fd1 = fd @ w" "tot1 = tot + length w" by auto
  show ?case
  proof (cases "pos + avail_in < length buf")
    case True
    with less.prems win inner ri have
      rec: "bzip2_loop L m buf (pos + avail_in) strm1 tot1 fd1 = Some (pos', tot', fd')"
      by (subst (asm) bzip2_loop.simps) (simp add: Let_def)
    from True win have "avail_in = CHUNK"
      by (auto simp: bzip2_window_def split: if_splits)
    then have "length buf - (pos + avail_in) < length buf - pos"
      using True by (simp add: CHUNK_def)
    from less.hyps [OF this rec] w show ?thesis
      by (metis append.assoc length_append add.assoc)
  next
    case False
    with less.prems win inner ri have "tot' = tot1" "fd' = fd1"
      by (subst (asm) bzip2_loop.simps, simp add: Let_def)+
    with w show ?thesis by blast
  qed
qed

lemma bzip2_total:
  "bzip2 L m buf = Some (Inr (t, out)) \<Longrightarrow> t = length out"
proof -
  assume run: "bzip2 L m buf = Some (Inr (t, out))"
  then obtain strm pos where "bzip2_loop L m buf 0 strm 0 [] = Some (pos, t, out)"
    by (auto simp: bzip2_def Let_def split: prod.splits if_splits option.splits)
  from bzip2_loop_total [OF this] show ?thesis by simp
qed

lemma lzma_inner_total:
  assumes run: "lzma_inner L B action strm next_in tot fd = Some r"
  shows "\<exists>w. snd (snd (snd r)) = fd @ w \<and> fst (snd (snd r)) = tot + length w"
proof (rule lzma_inner.raw_induct
    [where P = "\<lambda>L B action strm next_in tot fd r.
       \<exists>w. snd (snd (snd r)) = fd @ w \<and> fst (snd (snd r)) = tot + length w", OF _ run])
  fix inner :: "'a lzmalib \<Rightarrow> nat \<Rightarrow> int \<Rightarrow> 'a \<Rightarrow> byte list \<Rightarrow> nat \<Rightarrow> byte list
    \<Rightarrow> (int \<times> 'a \<times> nat \<times> byte list) option"
  fix L B action strm next_in tot fd r
  assume IH: "\<And>L B action strm next_in tot fd r.
      inner L B action strm next_in tot fd = Some r \<Longrightarrow>
      \<exists>w. snd (snd (snd r)) = fd @ w \<and> fst (snd (snd r)) = tot + length w"
  assume body: "(let (ret, strm1, used, produced) = lzma_code L strm next_in B action;
          out = take B produced;
          have = length out;
          (fd1, n1) = xwrite fd out;
          tot1 = tot + n1
      in if have = B \<and> ret = LZMA_OK
         then inner L B action strm1 (drop used next_in) tot1 fd1
         else Some (ret, strm1, tot1, fd1)) = Some r"
  obtain ret strm1 used produced where call:
    "lzma_code L strm next_in B action = (ret, strm1, used, produced)"
    by (metis prod_cases4)
  define out where "out = take B produced"
  have body': "(if length out = B \<and> ret = LZMA_OK
        then inner L B action strm1 (drop used next_in) (tot + length out) (fd @ out)
        else Some (ret, strm1, tot + length out, fd @ out)) = Some r"
    using body unfolding out_def by (simp only: call Let_def xwrite_def prod.case)
  show "\<exists>w. snd (snd (snd r)) = fd @ w \<and> fst (snd (snd r)) = tot + length w"
  proof (cases "length out = B \<and> ret = LZMA_OK")
    case True
    with body' have
      "inner L B action strm1 (drop used next_in) (tot + length out) (fd @ out) = Some r"
      by simp
    from IH [OF this] show ?thesis
      by (metis append.assoc length_append add.assoc)
  next
    case False
    with body' have "r = (ret, strm1, tot + length out, fd @ out)" by auto
    then show ?thesis by simp
  qed
qed

lemma lzma_loop_total:
  assumes run: "lzma_loop L B buf pos strm tot fd = Some r"
  shows "\<forall>p t f. r = Inr (p, t, f) \<longrightarrow> (\<exists>w. f = fd @ w \<and> t = tot + length w)"
proof (rule lzma_loop.raw_induct
    [where P = "\<lambda>L B buf pos strm tot fd r.
       \<forall>p t f. r = Inr (p, t, f) \<longrightarrow> (\<exists>w. f = fd @ w \<and> t = tot + length w)", OF _ run])
  fix loop :: "'a lzmalib \<Rightarrow> nat \<Rightarrow> byte list \<Rightarrow> nat \<Rightarrow> 'a \<Rightarrow> nat \<Rightarrow> byte list
      \<Rightarrow> (error + nat \<times> nat \<times> byte list) option"
  fix L B buf pos strm tot fd r
  assume IH: "\<And>L B buf pos strm tot fd r. loop L B buf pos strm tot fd = Some r \<Longrightarrow>
      \<forall>p t f. r = Inr (p, t, f) \<longrightarrow> (\<exists>w. f = fd @ w \<and> t = tot + length w)"
  assume body: "(let size = length buf;
          (avail_in, action) = lzma_window B pos size;
          pos1 = pos + avail_in
      in case lzma_inner L B action strm (take avail_in (drop pos buf)) tot fd of
           None \<Rightarrow> None
         | Some (ret, strm1, tot1, fd1) \<Rightarrow>
             if ret \<noteq> LZMA_OK \<and> ret \<noteq> LZMA_STREAM_END then Some (Inl CodecStreamError)
             else if pos1 < size then loop L B buf pos1 strm1 tot1 fd1
             else Some (Inr (pos1, tot1, fd1))) = Some r"
  obtain avail_in action where win: "lzma_window B pos (length buf) = (avail_in, action)"
    by (cases "lzma_window B pos (length buf)") auto
  from body win obtain ri where
    inner: "lzma_inner L B action strm (take avail_in (drop pos buf)) tot fd = Some ri"
    by (auto simp: Let_def split: option.splits)
  obtain ret strm1 tot1 fd1 where ri: "ri = (ret, strm1, tot1, fd1)" by (cases ri) auto
  from lzma_inner_total [OF inner] ri obtain w where
    w: "fd1 = fd @ w" "tot1 = tot + length w" by auto
  have body': "(if ret \<noteq> LZMA_OK \<and> ret \<noteq> LZMA_STREAM_END then Some (Inl CodecStreamError)
             else if pos + avail_in < length buf then loop L B buf (pos + avail_in) strm1 tot1 fd1
             else Some (Inr (pos + avail_in, tot1, fd1))) = Some r"
    using body by (simp add: Let_def win inner ri)
  show "\<forall>p t f. r = Inr (p, t, f) \<longrightarrow> (\<exists>w. f = fd @ w \<and> t = tot + length w)"
  proof (cases "ret \<noteq> LZMA_OK \<and> ret \<noteq> LZMA_STREAM_END")
    case True
    with body' show ?thesis by auto
  next
    case ok: False
    show ?thesis
    proof (cases "pos + avail_in < length buf")
      case True
      with body' ok have "loop L B buf (pos + avail_in) strm1 tot1 fd1 = Some r" by auto
      from IH [OF this] w show ?thesis
        by (metis append.assoc length_append add.assoc)
    next
      case False
      with body' ok have "r = Inr (pos + avail_in, tot1, fd1)" by auto
      with w show ?thesis by blast
    qed
  qed
qed

lemma lzma_total:
  "lzma L B m buf = Some (Inr (t, out)) \<Longrightarrow> t = length out"
proof -
  assume run: "lzma L B m buf = Some (Inr (t, out))"
  then obtain strm pos where "lzma_loop L B buf 0 strm 0 [] = Some (Inr (pos, t, out))"
    by (auto simp: lzma_def Let_def split: prod.splits if_splits option.splits sum.splits)
  from lzma_loop_total [OF this] show ?thesis by simp
qed

lemma lz4_inner_total:
  assumes run: "lz4_inner step ctx buf cap pos avail_in tot fd = Some r"
  shows "\<forall>ctx1 ret pos1 tot1 fd1. r = Inr (ctx1, ret, pos1, tot1, fd1) \<longrightarrow>
           (\<exists>w. fd1 = fd @ w \<and> tot1 = tot + length w)"
proof (rule lz4_inner.raw_induct
    [where P = "\<lambda>step ctx buf cap pos avail_in tot fd r.
       \<forall>ctx1 ret pos1 tot1 fd1. r = Inr (ctx1, ret, pos1, tot1, fd1) \<longrightarrow>
           (\<exists>w. fd1 = fd @ w \<and> tot1 = tot + length w)", OF _ run])
  fix inner :: "('a \<Rightarrow> nat \<Rightarrow> byte list \<Rightarrow> nat + ('a \<times> nat \<times> byte list \<times> nat)) \<Rightarrow> 'a \<Rightarrow> byte list
    \<Rightarrow> nat \<Rightarrow> nat \<Rightarrow> nat \<Rightarrow> nat \<Rightarrow> byte list
    \<Rightarrow> (error + ('a \<times> nat \<times> nat \<times> nat \<times> byte list)) option"
  fix step ctx buf cap pos avail_in tot fd r
  assume IH: "\<And>step ctx buf cap pos avail_in tot fd r.
      inner step ctx buf cap pos avail_in tot fd = Some r \<Longrightarrow>
      \<forall>ctx1 ret pos1 tot1 fd1. r = Inr (ctx1, ret, pos1, tot1, fd1) \<longrightarrow>
           (\<exists>w. fd1 = fd @ w \<and> tot1 = tot + length w)"
  assume body: "(case step ctx cap (take avail_in (drop pos buf)) of
        Inl e \<Rightarrow> Some (Inl CodecStreamError)
      | Inr (ctx1, ret, out, rd) \<Rightarrow>
          let (fd1, n1) = xwrite fd out;
              tot1 = tot + n1;
              pos1 = pos + rd;
              avail1 = avail_in - rd
          in if avail1 \<noteq> 0 \<and> ret \<noteq> 0
             then inner step ctx1 buf cap pos1 avail1 tot1 fd1
             else Some (Inr (ctx1, ret, pos1, tot1, fd1))) = Some r"
  show "\<forall>ctx1 ret pos1 tot1 fd1. r = Inr (ctx1, ret, pos1, tot1, fd1) \<longrightarrow>
           (\<exists>w. fd1 = fd @ w \<and> tot1 = tot + length w)"
  proof (cases "step ctx cap (take avail_in (drop pos buf))")
    case (Inl e)
    with body show ?thesis by auto
  next
    case (Inr x)
    obtain ctx1 ret out rd where x: "x = (ctx1, ret, out, rd)" by (cases x) auto
    show ?thesis
    proof (cases "avail_in - rd \<noteq> 0 \<and> ret \<noteq> 0")
      case True
      with body Inr x have
        "inner step ctx1 buf cap (pos + rd) (avail_in - rd) (tot + length out) (fd @ out) = Some r"
        by (simp add: xwrite_def)
      from IH [OF this] show ?thesis
        by (metis append.assoc length_append add.assoc)
    next
      case False
      with body Inr x have "r = Inr (ctx1, ret, pos + rd, tot + length out, fd @ out)"
        by (auto simp add: xwrite_def)
      then show ?thesis by simp
    qed
  qed
qed

lemma lz4_loop_total:
  assumes run: "lz4_loop step ctx buf cap pos tot fd = Some r"
  shows "\<forall>ctx1 pos1 tot1 fd1. r = Inr (ctx1, pos1, tot1, fd1) \<longrightarrow>
           (\<exists>w. fd1 = fd @ w \<and> tot1 = tot + length w)"
proof (rule lz4_loop.raw_induct
    [where P = "\<lambda>step ctx buf cap pos tot fd r.
       \<forall>ctx1 pos1 tot1 fd1. r = Inr (ctx1, pos1, tot1, fd1) \<longrightarrow>
           (\<exists>w. fd1 = fd @ w \<and> tot1 = tot + length w)", OF _ run])
  fix loop :: "('a \<Rightarrow> nat \<Rightarrow> byte list \<Rightarrow> nat + ('a \<times> nat \<times> byte list \<times> nat)) \<Rightarrow> 'a \<Rightarrow> byte list
    \<Rightarrow> nat \<Rightarrow> nat \<Rightarrow> nat \<Rightarrow> byte list
    \<Rightarrow> (error + ('a \<times> nat \<times> nat \<times> byte list)) option"
  fix step ctx buf cap pos tot fd r
  assume IH: "\<And>step ctx buf cap pos tot fd r.
      loop step ctx buf cap pos tot fd = Some r \<Longrightarrow>
      \<forall>ctx1 pos1 tot1 fd1. r = Inr (ctx1, pos1, tot1, fd1) \<longrightarrow>
           (\<exists>w. fd1 = fd @ w \<and> tot1 = tot + length w)"
  assume body: "(let size = length buf;
          avail_in = lz4_window pos size
      in case lz4_inner step ctx buf cap pos avail_in tot fd of
           None \<Rightarrow> None
         | Some (Inl e) \<Rightarrow> Some (Inl e)
         | Some (Inr (ctx1, ret, pos1, tot1, fd1)) \<Rightarrow>
             if pos1 < size \<and> ret \<noteq> 0
             then loop step ctx1 buf cap pos1 tot1 fd1
             else Some (Inr (ctx1, pos1, tot1, fd1))) = Some r"
  from body obtain ri where
    inner: "lz4_inner step ctx buf cap pos (lz4_window pos (length buf)) tot fd = Some ri"
    by (auto simp: Let_def split: option.splits)
  show "\<forall>ctx1 pos1 tot1 fd1. r = Inr (ctx1, pos1, tot1, fd1) \<longrightarrow>
           (\<exists>w. fd1 = fd @ w \<and> tot1 = tot + length w)"
  proof (cases ri)
    case (Inl e)
    with body inner show ?thesis by (auto simp: Let_def)
  next
    case (Inr x)
    obtain ctx1 ret pos1 tot1 fd1 where x: "x = (ctx1, ret, pos1, tot1, fd1)"
      by (cases x) auto
    from lz4_inner_total [OF inner] Inr x obtain w where
      w: "fd1 = fd @ w" "tot1 = tot + length w" by blast
    show ?thesis
    proof (cases "pos1 < length buf \<and> ret \<noteq> 0")
      case True
      with body inner Inr x have "loop step ctx1 buf cap pos1 tot1 fd1 = Some r"
        by (simp add: Let_def)
      from IH [OF this] w show ?thesis
        by (metis append.assoc length_append add.assoc)
    next
      case False
      with body inner Inr x have "r = Inr (ctx1, pos1, tot1, fd1)"
        by (auto simp: Let_def)
      with w show ?thesis by blast
    qed
  qed
qed

lemma lz4_total:
  assumes run: "lz4 L m buf = Some (Inr (t, out))"
  shows "t = length out"
proof (cases m)
  case Decode
  with run obtain dctx1 outCapacity rd dctx2 pos where
    "lz4_loop (lz4_decode_step L) dctx1 buf outCapacity rd 0 [] = Some (Inr (dctx2, pos, t, out))"
    by (auto simp: lz4_def split: sum.splits option.splits if_splits)
  from lz4_loop_total [OF this] show ?thesis by simp
next
  case Encode
  with run obtain cctx1 header cctx2 pos tot fd footer where
    loop: "lz4_loop (lz4_encode_step L) cctx1 buf (LZ4F_compressFrameBound L blockSize) 0
             (length header) header = Some (Inr (cctx2, pos, tot, fd))"
    and res: "t = tot + length footer" "out = fd @ footer"
    by (auto simp: lz4_def Let_def xwrite_def split: sum.splits option.splits if_splits)
  from lz4_loop_total [OF loop] obtain w where "fd = header @ w" "tot = length header + length w"
    by blast
  with res show ?thesis by simp
qed

text \<open>
  The four transcoders that drive a library return the number of bytes they wrote: every
  \<^verbatim>\<open>xwrite\<close> of theirs is added to \<open>total\<close>, the frame header and the end mark of
  \<^verbatim>\<open>lz4\<close> included.
\<close>

lemma transcoder_totals:
  "(gzip Z m buf = Some (Inr (t, out)) \<longrightarrow> t = length out)
   \<and> (lzma X B lm buf = Some (Inr (t, out)) \<longrightarrow> t = length out)
   \<and> (bzip2 Y m buf = Some (Inr (t, out)) \<longrightarrow> t = length out)
   \<and> (lz4 F m buf = Some (Inr (t, out)) \<longrightarrow> t = length out)"
  using gzip_total [of Z m buf t out] lzma_total [of X B lm buf t out]
    bzip2_total [of Y m buf t out] lz4_total [of F m buf t out]
  by blast

section \<open>Properties of the command-line helpers\<close>

lemma strrchr_None: "strrchr s c = None \<longleftrightarrow> c \<notin> set s"
  by (induction s) (auto split: option.splits)

lemma strrchr_append:
  "c \<notin> set t \<Longrightarrow> strrchr (p @ c # t) c = Some (c # t)"
proof (induction p)
  case Nil
  then have "strrchr t c = None" by (simp add: strrchr_None)
  then show ?case by simp
next
  case (Cons x p)
  then show ?case by simp
qed

lemma strrchr_Some:
  "strrchr s c = Some r \<Longrightarrow> \<exists>p. s = p @ r"
proof (induction s)
  case Nil
  then show ?case by simp
next
  case (Cons x xs)
  show ?case
  proof (cases "strrchr xs c")
    case None
    with Cons.prems show ?thesis by (auto split: if_splits)
  next
    case (Some r')
    with Cons.prems have "r' = r" by simp
    with Cons.IH Some obtain p where "xs = p @ r" by auto
    then have "x # xs = (x # p) @ r" by simp
    then show ?thesis by blast
  qed
qed

lemma spec_suffix_dot:
  "spec_suffix type = Some sfx \<Longrightarrow> \<exists>t. sfx = CHR ''.'' # t \<and> CHR ''.'' \<notin> set t"
  by (cases type) auto

lemma ext_ok_suffix:
  "spec_suffix type = Some sfx \<Longrightarrow> ext_ok type ext = Inr (ext = sfx)"
  by (cases type) (auto simp: ext_ok_def)

lemma decomp_file_mismatch:
  assumes sfx: "spec_suffix (check_type file) = Some sfx"
    and no: "\<not> (\<exists>p. from = p @ sfx)"
  shows "decomp_file E check_type file from to = Some (Inl ExtensionMismatch)"
proof (cases "strrchr from CHR ''.''")
  case None
  then show ?thesis by (simp add: decomp_file_def)
next
  case (Some ext)
  from strrchr_Some [OF Some] no have "ext \<noteq> sfx" by auto
  with Some show ?thesis
    by (simp add: decomp_file_def ext_ok_suffix [OF sfx])
qed

lemma decomp_file_match:
  assumes sfx: "spec_suffix (check_type file) = Some sfx"
  shows "decomp_file E check_type file (p @ sfx) to =
           map_option (map_sum id (\<lambda>(n, fd).
               \<lparr> dest = (case to of None \<Rightarrow> p | Some t \<Rightarrow> t), content = fd,
                 unlinked = (to = None) \<rparr>))
             (decomp E (check_type file) file)"
proof -
  from spec_suffix_dot [OF sfx] obtain t where t: "sfx = CHR ''.'' # t" "CHR ''.'' \<notin> set t"
    by blast
  have ext: "strrchr (p @ sfx) CHR ''.'' = Some sfx"
    unfolding t(1) by (rule strrchr_append [OF t(2)])
  show ?thesis
    by (simp add: decomp_file_def ext ext_ok_suffix [OF sfx] Let_def
             split: option.split sum.split prod.split)
qed

lemma comp_file_dest:
  assumes "comp_method method = Inr (type, ext)"
    and "length from + length ext + 1 < PATH_MAX"
  shows "comp_file E PATH_MAX method file from None =
           map_option (map_sum id (\<lambda>(n, fd).
               \<lparr> dest = from @ ''.'' @ ext, content = fd, unlinked = True \<rparr>))
             (comp E type file)"
  using assms
  by (simp add: comp_file_def split: option.split sum.split prod.split)

text \<open>
  C8. For a file whose detected type is one of the six formats, \<^verbatim>\<open>decomp_file\<close> fails
  with \<open>ExtensionMismatch\<close> whenever the path does not end in the suffix of that type;
  when it does, the file is decompressed (to the path without the suffix when no destination
  is given). The method names \<^verbatim>\<open>lz4_legacy\<close> and \<^verbatim>\<open>lz4\<close> map to the two different
  tags \<open>LZ4_LEGACY\<close> and \<open>LZ4\<close>, both with the extension \<^verbatim>\<open>lz4\<close>, so that both
  compress to the source path followed by \<^verbatim>\<open>.lz4\<close>.
\<close>

theorem extension_matcher:
  assumes sfx: "spec_suffix (check_type file) = Some sfx"
    and len: "length from + 4 < PATH_MAX"
  shows "(\<not> (\<exists>p. from = p @ sfx) \<longrightarrow>
            decomp_file E check_type file from to = Some (Inl ExtensionMismatch))
   \<and> decomp_file E check_type file (p @ sfx) to =
       map_option (map_sum id (\<lambda>(n, fd).
           \<lparr> dest = (case to of None \<Rightarrow> p | Some t \<Rightarrow> t), content = fd,
             unlinked = (to = None) \<rparr>))
         (decomp E (check_type file) file)
   \<and> comp_method ''lz4_legacy'' = Inr (LZ4_LEGACY, ''lz4'')
   \<and> comp_method ''lz4'' = Inr (LZ4, ''lz4'')
   \<and> LZ4 \<noteq> LZ4_LEGACY
   \<and> comp_file E PATH_MAX ''lz4_legacy'' file from None =
       map_option (map_sum id (\<lambda>(n, fd).
           \<lparr> dest = from @ ''.lz4'', content = fd, unlinked = True \<rparr>))
         (comp E LZ4_LEGACY file)
   \<and> comp_file E PATH_MAX ''lz4'' file from None =
       map_option (map_sum id (\<lambda>(n, fd).
           \<lparr> dest = from @ ''.lz4'', content = fd, unlinked = True \<rparr>))
         (comp E LZ4 file)"
proof -
  have m1: "comp_method ''lz4_legacy'' = Inr (LZ4_LEGACY, ''lz4'')"
    and m2: "comp_method ''lz4'' = Inr (LZ4, ''lz4'')"
    by (simp_all add: comp_method_def)
  from len have len': "length from + length ''lz4'' + 1 < PATH_MAX" by simp
  show ?thesis
    using decomp_file_mismatch [where ?check_type = check_type and ?file = "file", OF sfx,
          of "from" E to]
      decomp_file_match [where ?check_type = check_type and ?file = "file", OF sfx, of E p to]
      comp_file_dest [OF m1 len', of E "file"] comp_file_dest [OF m2 len', of E "file"] m1 m2
    by simp
qed

theorem extension_matcher_witness:
  "spec_suffix ((\<lambda>file. XZ) []) = Some ''.xz''
   \<and> length ''ramdisk.gz'' + 4 < (4096 :: nat)
   \<and> \<not> (\<exists>p. ''ramdisk.gz'' = p @ ''.xz'')
   \<and> decomp_file libs_ref (\<lambda>file. XZ) [] ''ramdisk.gz'' None = Some (Inl ExtensionMismatch)"
proof -
  have sfx: "spec_suffix ((\<lambda>file. XZ) ([] :: byte list)) = Some ''.xz''" by simp
  have len: "length ''ramdisk.gz'' + 4 < (4096 :: nat)" by simp
  have no: "\<not> (\<exists>p. ''ramdisk.gz'' = p @ ''.xz'')"
    by (auto simp: append_eq_Cons_conv)
  from extension_matcher [where ?check_type = "\<lambda>file. XZ" and ?file = "[]" and ?E = libs_ref
      and ?to = None, OF sfx len] sfx len no
  show ?thesis by simp
qed

section \<open>Stream errors when decoding\<close>

text \<open>
  Each transcoder tests the status of its library in its own way: \<^verbatim>\<open>gzip\<close> compares it
  with \<^verbatim>\<open>Z_STREAM_ERROR\<close> (line 68), \<^verbatim>\<open>lzma\<close> with \<^verbatim>\<open>LZMA_OK\<close> and
  \<^verbatim>\<open>LZMA_STREAM_END\<close> behind the inner loop (line 141), \<^verbatim>\<open>lz4\<close> asks
  \<^verbatim>\<open>LZ4F_isError\<close> (lines 178 and 234), \<^verbatim>\<open>lz4_legacy\<close> tests for a negative result
  (line 358), and \<^verbatim>\<open>bzip2\<close> stores the status and tests nothing. None of them asks
  whether the stream has ended. The lemmas follow the loops along the step relations: a run
  fails with a stream error exactly when one of the codec calls it makes reports the status
  that is tested.
\<close>

subsection \<open>gzip\<close>








subsection \<open>xz and LZMA\<close>








subsection \<open>LZ4 frame\<close>









subsection \<open>bzip2\<close>


text \<open>
  The error exits are there: a zlib that reports \<^verbatim>\<open>Z_STREAM_ERROR\<close> makes \<^verbatim>\<open>gzip\<close>
  fail, and so does a block that is not an LZ4 block (its token \<^verbatim>\<open>11\<close> announces a
  match that is not there) for \<^verbatim>\<open>lz4_legacy\<close>.
\<close>

lemma stream_error_reported:
  "gzip (zlib_ref \<lparr> inflate := \<lambda>strm next_in avail_out flush. (Z_STREAM_ERROR, (), 0, []) \<rparr>)
     Decode [0x1f, 0x8b] = Some (Inl CodecStreamError)
   \<and> lz4_legacy lz4_ref Decode [0x02, 0x21, 0x4c, 0x18, 0x01, 0, 0, 0, 0x11]
       = Inl CodecStreamError"
  by (simp add: gzip_def gzip_loop.simps gzip_inner.simps gzip_window_def zlib_ref_def
        Z_OK_def CHUNK_def lz4_legacy_def lz4_legacy_loop.simps lz4_ref_def
        lz4_literal_decode_def LZ4_LEGACY_BLOCKSIZE_def rd32_def Let_def)

subsection \<open>Streams that were cut\<close>








end
